theory Spec2Isabelle
  imports Main "HOL-Library.AList" "HOL-Library.Multiset"
begin

section \<open>Strings\<close>

text \<open>
  Python strings are modelled as \<^typ>\<open>string\<close>, read as sequences of ASCII characters:
  the case mapping, the white space, digit and word classes below are the ones Python
  uses on the code points 0 to 127. On other characters Python's \<^verbatim>\<open>str\<close> and
  \<^verbatim>\<open>re\<close> follow the Unicode tables, which are not modelled; every property below
  that depends on these functions is stated for ASCII strings.
\<close>

definition is_ascii :: "char \<Rightarrow> bool" where
  "is_ascii c = ((of_char c :: nat) < 128)"

definition ascii :: "string \<Rightarrow> bool" where
  "ascii s = list_all is_ascii s"

definition is_upper :: "char \<Rightarrow> bool" where
  "is_upper c = (65 \<le> (of_char c :: nat) \<and> (of_char c :: nat) \<le> 90)"

definition is_lower :: "char \<Rightarrow> bool" where
  "is_lower c = (97 \<le> (of_char c :: nat) \<and> (of_char c :: nat) \<le> 122)"

definition is_digit :: "char \<Rightarrow> bool" where
  "is_digit c = (48 \<le> (of_char c :: nat) \<and> (of_char c :: nat) \<le> 57)"

text \<open>\<^verbatim>\<open>str.isspace\<close> and the class \<^verbatim>\<open>\s\<close>: tab to carriage return, the four
  separators 28 to 31, and the blank.\<close>

definition is_space :: "char \<Rightarrow> bool" where
  "is_space c = ((9 \<le> (of_char c :: nat) \<and> (of_char c :: nat) \<le> 13) \<or>
                 (28 \<le> (of_char c :: nat) \<and> (of_char c :: nat) \<le> 32))"

text \<open>The class \<^verbatim>\<open>\w\<close>: letters, digits and the underscore.\<close>

definition is_word :: "char \<Rightarrow> bool" where
  "is_word c = (is_upper c \<or> is_lower c \<or> is_digit c \<or> c = CHR ''_'')"

definition lower_char :: "char \<Rightarrow> char" where
  "lower_char c = (if is_upper c then char_of ((of_char c :: nat) + 32) else c)"

definition upper_char :: "char \<Rightarrow> char" where
  "upper_char c = (if is_lower c then char_of ((of_char c :: nat) - 32) else c)"

text \<open>\<^verbatim>\<open>str.lower\<close>.\<close>

definition lower :: "string \<Rightarrow> string" where
  "lower s = map lower_char s"

text \<open>\<^verbatim>\<open>s.startswith(p)\<close>, and \<^verbatim>\<open>needle in hay\<close> on strings.\<close>

fun startswith :: "string \<Rightarrow> string \<Rightarrow> bool" where
  "startswith s [] = True"
| "startswith [] (p # ps) = False"
| "startswith (c # cs) (p # ps) = (c = p \<and> startswith cs ps)"

fun str_contains :: "string \<Rightarrow> string \<Rightarrow> bool" where
  "str_contains [] needle = (needle = [])"
| "str_contains (c # cs) needle = (startswith (c # cs) needle \<or> str_contains cs needle)"

text \<open>\<^verbatim>\<open>s.replace('*', '.*')\<close>.\<close>

fun replace_star :: "string \<Rightarrow> string" where
  "replace_star [] = []"
| "replace_star (c # cs) =
     (if c = CHR ''*'' then CHR ''.'' # CHR ''*'' # replace_star cs else c # replace_star cs)"

section \<open>Data model\<close>

text \<open>Exceptions that the engine's library calls can raise: \<^verbatim>\<open>re.error\<close> from compiling
  a pattern, \<^verbatim>\<open>KeyError\<close> from a dictionary lookup, \<^verbatim>\<open>ValueError\<close> from \<^verbatim>\<open>int\<close>,
  \<^verbatim>\<open>IndexError\<close> from a group that a match does not have.\<close>

datatype exn = ReError | KeyError | ValueError | IndexError

text \<open>A naive \<^verbatim>\<open>datetime\<close>; the ordering is the lexicographic one on its fields.\<close>

record datetime =
  dt_year :: int
  dt_month :: int
  dt_day :: int
  dt_hour :: int
  dt_minute :: int
  dt_second :: int
  dt_microsecond :: int

fun lex_less :: "int list \<Rightarrow> int list \<Rightarrow> bool" where
  "lex_less (x # xs) (y # ys) = (x < y \<or> (x = y \<and> lex_less xs ys))"
| "lex_less _ _ = False"

definition dt_fields :: "datetime \<Rightarrow> int list" where
  "dt_fields d = [dt_year d, dt_month d, dt_day d, dt_hour d, dt_minute d, dt_second d,
     dt_microsecond d]"

definition datetime_less :: "datetime \<Rightarrow> datetime \<Rightarrow> bool" where
  "datetime_less a b = lex_less (dt_fields a) (dt_fields b)"

record DateFilter =
  year :: "int option"
  month :: "int option"
  start_date :: "datetime option"
  end_date :: "datetime option"

record AlbumSpec =
  name :: string
  keywords_list :: "string list"
  date_filter :: "DateFilter option"
  original_prompt :: string

text \<open>\<open>file_created\<close> is declared a \<^verbatim>\<open>datetime\<close>, but \<^verbatim>\<open>match_date\<close> guards against
  its absence, so the model lets it be absent. The location is never read by the
  engine.\<close>

record PhotoMetadata =
  path :: string
  filename :: string
  folder_name :: string
  file_created :: "datetime option"
  file_modified :: "datetime option"
  exif_date :: "datetime option"
  exif_location :: "(int \<times> int) option"
  size_bytes :: int

text \<open>The dictionaries of a \<^verbatim>\<open>MatchResult\<close> keep insertion order: association lists
  with distinct keys.\<close>

record MatchResult =
  matched :: "(string \<times> PhotoMetadata list) list"
  unmatched :: "PhotoMetadata list"
  match_stats :: "(string \<times> nat) list"

section \<open>Regular expressions of the matcher\<close>

text \<open>
  \<^verbatim>\<open>re.search(pattern, text, re.IGNORECASE)\<close>, as a truth value, for the patterns
  \<^verbatim>\<open>'^' + p\<close> where \<open>p\<close> is built from ordinary characters, \<^verbatim>\<open>.\<close> and \<^verbatim>\<open>.*\<close>.
  An ordinary character matches itself up to case, \<^verbatim>\<open>.\<close> matches every character but
  the line feed, and \<^verbatim>\<open>.*\<close> any run of those. A repetition operator right after the
  caret has nothing to repeat: compiling the pattern raises \<^verbatim>\<open>re.error\<close>. What the
  library answers on any other pattern is left open (\<open>re_beyond\<close>): the properties of the
  matcher are proved for every search function, and those of \<open>re_search\<close> itself for
  the patterns described here.
\<close>

datatype re_item = Lit char | AnyChar | AnyStar

definition re_special :: "char \<Rightarrow> bool" where
  "re_special c = (c \<in> set (CHR 0x5C # ''^$.|?*+()[]{}''))"

fun re_parse :: "string \<Rightarrow> re_item list option" where
  "re_parse [] = Some []"
| "re_parse (c # cs) =
     (if c = CHR ''.'' then
        (case cs of
           d # ds \<Rightarrow>
             (if d = CHR ''*'' then map_option (\<lambda>r. AnyStar # r) (re_parse ds)
              else map_option (\<lambda>r. AnyChar # r) (re_parse cs))
         | [] \<Rightarrow> Some [AnyChar])
      else if re_special c then None
      else map_option (\<lambda>r. Lit c # r) (re_parse cs))"

fun re_match_here :: "re_item list \<Rightarrow> string \<Rightarrow> bool" where
  "re_match_here [] s = True"
| "re_match_here (Lit c # r) [] = False"
| "re_match_here (Lit c # r) (d # t) = (lower_char c = lower_char d \<and> re_match_here r t)"
| "re_match_here (AnyChar # r) [] = False"
| "re_match_here (AnyChar # r) (d # t) = (d \<noteq> CHR 0x0A \<and> re_match_here r t)"
| "re_match_here (AnyStar # r) [] = re_match_here r []"
| "re_match_here (AnyStar # r) (d # t) =
     (re_match_here r (d # t) \<or> (d \<noteq> CHR 0x0A \<and> re_match_here (AnyStar # r) t))"

definition re_beyond :: "string \<Rightarrow> string \<Rightarrow> exn + bool" where
  "re_beyond = undefined"

definition re_search :: "string \<Rightarrow> string \<Rightarrow> exn + bool" where
  "re_search pattern text =
     (case pattern of
        [] \<Rightarrow> re_beyond pattern text
      | a # p \<Rightarrow>
          if a \<noteq> CHR ''^'' then re_beyond pattern text
          else if startswith p ''+'' \<or> startswith p ''?'' then Inl ReError
          else (case re_parse p of
                  None \<Rightarrow> re_beyond pattern text
                | Some items \<Rightarrow> Inr (re_match_here items text)))"

section \<open>Pattern matcher\<close>

text \<open>The functions of \<^verbatim>\<open>PatternMatcher\<close> take the library's case-insensitive
  \<^verbatim>\<open>re.search\<close> as the parameter \<open>rx\<close>; \<^const>\<open>re_search\<close> is the instance used in the
  examples.\<close>

type_synonym regex_search = "string \<Rightarrow> string \<Rightarrow> exn + bool"

fun match_filename :: "regex_search \<Rightarrow> PhotoMetadata \<Rightarrow> string list \<Rightarrow> exn + bool" where
  "match_filename rx photo [] = Inr False"
| "match_filename rx photo (keyword # kws) =
     (if CHR ''*'' \<in> set keyword then
        (case rx (CHR ''^'' # replace_star keyword) (lower (filename photo)) of
           Inl e \<Rightarrow> Inl e
         | Inr found \<Rightarrow> if found then Inr True else match_filename rx photo kws)
      else if str_contains (lower (filename photo)) (lower keyword) then Inr True
      else match_filename rx photo kws)"

fun match_folder :: "regex_search \<Rightarrow> PhotoMetadata \<Rightarrow> string list \<Rightarrow> exn + bool" where
  "match_folder rx photo [] = Inr False"
| "match_folder rx photo (keyword # kws) =
     (if CHR ''*'' \<in> set keyword then
        (case rx (CHR ''^'' # replace_star keyword) (lower (folder_name photo)) of
           Inl e \<Rightarrow> Inl e
         | Inr found \<Rightarrow> if found then Inr True else match_folder rx photo kws)
      else if str_contains (lower (folder_name photo)) (lower keyword) then Inr True
      else match_folder rx photo kws)"

text \<open>\<^verbatim>\<open>photo.exif_date if photo.exif_date else photo.file_created\<close>: a \<^verbatim>\<open>datetime\<close> is
  always truthy.\<close>

definition preferred_date :: "PhotoMetadata \<Rightarrow> datetime option" where
  "preferred_date photo =
     (case exif_date photo of Some d \<Rightarrow> Some d | None \<Rightarrow> file_created photo)"

text \<open>A field of the filter is tested by its truthiness: an absent year or month and
  the number 0 are both skipped.\<close>

definition match_date :: "PhotoMetadata \<Rightarrow> DateFilter \<Rightarrow> bool" where
  "match_date photo df =
     (case preferred_date photo of
        None \<Rightarrow> False
      | Some photo_date \<Rightarrow>
          if (case year df of None \<Rightarrow> False | Some y \<Rightarrow> y \<noteq> 0 \<and> dt_year photo_date \<noteq> y)
          then False
          else if (case month df of None \<Rightarrow> False
                   | Some m \<Rightarrow> m \<noteq> 0 \<and> dt_month photo_date \<noteq> m)
          then False
          else if (case start_date df of None \<Rightarrow> False
                   | Some s \<Rightarrow> datetime_less photo_date s)
          then False
          else if (case end_date df of None \<Rightarrow> False
                   | Some e \<Rightarrow> datetime_less e photo_date)
          then False
          else True)"

text \<open>\<^verbatim>\<open>match_filename(...) or match_folder(...)\<close>: the folder is only looked at when the
  file name did not match.\<close>

definition keyword_match :: "regex_search \<Rightarrow> PhotoMetadata \<Rightarrow> AlbumSpec \<Rightarrow> exn + bool" where
  "keyword_match rx photo spec =
     (case match_filename rx photo (keywords_list spec) of
        Inl e \<Rightarrow> Inl e
      | Inr b \<Rightarrow> if b then Inr True else match_folder rx photo (keywords_list spec))"

definition matches_spec :: "regex_search \<Rightarrow> PhotoMetadata \<Rightarrow> AlbumSpec \<Rightarrow> exn + bool" where
  "matches_spec rx photo spec =
     (case keyword_match rx photo spec of
        Inl e \<Rightarrow> Inl e
      | Inr kw \<Rightarrow>
          (case date_filter spec of
             Some df \<Rightarrow>
               (let date_match = match_date photo df in
                if kw \<and> date_match then Inr True
                else if kw then Inr True
                else Inr False)
           | None \<Rightarrow> Inr kw))"

text \<open>The inner loop of \<^verbatim>\<open>match\<close>: the name of the first spec that matches, if any.\<close>

fun find_album :: "regex_search \<Rightarrow> AlbumSpec list \<Rightarrow> PhotoMetadata \<Rightarrow> exn + string option"
  where
  "find_album rx [] photo = Inr None"
| "find_album rx (spec # specs) photo =
     (case matches_spec rx photo spec of
        Inl e \<Rightarrow> Inl e
      | Inr b \<Rightarrow> if b then Inr (Some (name spec)) else find_album rx specs photo)"

text \<open>\<^verbatim>\<open>{spec.name: [] for spec in self.album_specs}\<close>.\<close>

fun init_matched :: "AlbumSpec list \<Rightarrow> (string \<times> PhotoMetadata list) list
    \<Rightarrow> (string \<times> PhotoMetadata list) list" where
  "init_matched [] d = d"
| "init_matched (spec # specs) d = init_matched specs (AList.update (name spec) [] d)"

text \<open>\<^verbatim>\<open>matched[k].append(photo)\<close>.\<close>

definition bucket_append :: "(string \<times> PhotoMetadata list) list \<Rightarrow> string \<Rightarrow> PhotoMetadata
    \<Rightarrow> exn + (string \<times> PhotoMetadata list) list" where
  "bucket_append d k photo =
     (case map_of d k of
        None \<Rightarrow> Inl KeyError
      | Some ps \<Rightarrow> Inr (AList.update k (ps @ [photo]) d))"

text \<open>The outer loop of \<^verbatim>\<open>match\<close>, on the pair of the dictionary and the unmatched
  list. \<^verbatim>\<open>if matched_album:\<close> tests the name for truthiness.\<close>

fun match_loop :: "regex_search \<Rightarrow> AlbumSpec list \<Rightarrow> PhotoMetadata list
    \<Rightarrow> (string \<times> PhotoMetadata list) list \<times> PhotoMetadata list
    \<Rightarrow> exn + ((string \<times> PhotoMetadata list) list \<times> PhotoMetadata list)" where
  "match_loop rx album_specs [] st = Inr st"
| "match_loop rx album_specs (photo # photos) (d, um) =
     (case find_album rx album_specs photo of
        Inl e \<Rightarrow> Inl e
      | Inr matched_album \<Rightarrow>
          (case matched_album of
             None \<Rightarrow> match_loop rx album_specs photos (d, um @ [photo])
           | Some k \<Rightarrow>
               if k \<noteq> [] then
                 (case bucket_append d k photo of
                    Inl e \<Rightarrow> Inl e
                  | Inr d' \<Rightarrow> match_loop rx album_specs photos (d', um))
               else match_loop rx album_specs photos (d, um @ [photo])))"

definition match :: "regex_search \<Rightarrow> AlbumSpec list \<Rightarrow> PhotoMetadata list \<Rightarrow> exn + MatchResult"
  where
  "match rx album_specs photos =
     (case match_loop rx album_specs photos (init_matched album_specs [], []) of
        Inl e \<Rightarrow> Inl e
      | Inr (d, um) \<Rightarrow>
          Inr \<lparr>matched = d, unmatched = um,
               match_stats = map (\<lambda>(n, ps). (n, length ps)) d\<rparr>)"

section \<open>Regular expressions of the parser\<close>

text \<open>
  The patterns of \<^verbatim>\<open>PromptParser\<close> are fixed, and built from literal text, the classes
  \<^verbatim>\<open>\d\<close> and \<^verbatim>\<open>\s\<close>, bounded and unbounded repetition of a class, the optional
  \<^verbatim>\<open>?\<close>, alternation, groups and the word boundary \<^verbatim>\<open>\b\<close>. \<open>TextI\<close> is a literal
  under \<^verbatim>\<open>re.IGNORECASE\<close>.
\<close>

datatype cls = CDigit | CSpace

datatype rexp =
    Text string
  | TextI string
  | Rep nat cls
  | Plus cls
  | Opt rexp
  | Alt rexp rexp
  | Fail
  | Seq rexp rexp
  | Bound
  | Group rexp

text \<open>A literal prefix under \<^verbatim>\<open>re.IGNORECASE\<close>: the characters agree up to case.\<close>

fun startswith_ci :: "string \<Rightarrow> string \<Rightarrow> bool" where
  "startswith_ci s [] = True"
| "startswith_ci [] (p # ps) = False"
| "startswith_ci (c # cs) (p # ps) =
     (if lower_char c = lower_char p then startswith_ci cs ps else False)"

fun in_cls :: "cls \<Rightarrow> char \<Rightarrow> bool" where
  "in_cls CDigit c = is_digit c"
| "in_cls CSpace c = is_space c"

text \<open>A position in the subject: the character before it, if any, the text from it on,
  and the groups captured so far.\<close>

type_synonym config = "char option \<times> string \<times> string list"

fun consume :: "nat \<Rightarrow> char option \<Rightarrow> string \<Rightarrow> char option \<times> string" where
  "consume 0 p s = (p, s)"
| "consume (Suc n) p [] = (p, [])"
| "consume (Suc n) p (c # cs) = consume n (Some c) cs"

definition advance :: "nat \<Rightarrow> config \<Rightarrow> config" where
  "advance n cfg =
     (case cfg of (p, s, gs) \<Rightarrow> (case consume n p s of (p', s') \<Rightarrow> (p', s', gs)))"

text \<open>\<^verbatim>\<open>\b\<close>: exactly one of the two neighbours is a word character; beyond either end
  of the subject there is none.\<close>

definition boundary :: "char option \<Rightarrow> string \<Rightarrow> bool" where
  "boundary p s =
     ((case p of None \<Rightarrow> False | Some c \<Rightarrow> is_word c) \<noteq>
      (case s of [] \<Rightarrow> False | c # _ \<Rightarrow> is_word c))"

text \<open>The backtracking matcher: all the ways in which the expression matches at a
  position, in the order in which \<^verbatim>\<open>re\<close> tries them (the left alternative first, the
  longer repetition first). The match that \<^verbatim>\<open>re\<close> reports is the first one.\<close>

fun rx_match :: "rexp \<Rightarrow> config \<Rightarrow> config list" where
  "rx_match (Text l) (p, s, gs) =
     (if startswith s l then [advance (length l) (p, s, gs)] else [])"
| "rx_match (TextI l) (p, s, gs) =
     (if startswith_ci s l then [advance (length l) (p, s, gs)] else [])"
| "rx_match (Rep n c) (p, s, gs) =
     (if n \<le> length s \<and> (\<forall>x\<in>set (take n s). in_cls c x) then [advance n (p, s, gs)] else [])"
| "rx_match (Plus c) (p, s, gs) =
     map (\<lambda>k. advance k (p, s, gs)) (rev [1..<Suc (length (takeWhile (in_cls c) s))])"
| "rx_match (Opt r) cfg = rx_match r cfg @ [cfg]"
| "rx_match (Alt r1 r2) cfg = rx_match r1 cfg @ rx_match r2 cfg"
| "rx_match Fail cfg = []"
| "rx_match (Seq r1 r2) cfg = concat (map (rx_match r2) (rx_match r1 cfg))"
| "rx_match Bound (p, s, gs) = (if boundary p s then [(p, s, gs)] else [])"
| "rx_match (Group r) (p, s, gs) =
     map (\<lambda>(p', s', gs'). (p', s', gs' @ [take (length s - length s') s]))
       (rx_match r (p, s, gs))"

text \<open>The match at a position, if there is one: its length and its groups.\<close>

definition match_at :: "rexp \<Rightarrow> char option \<Rightarrow> string \<Rightarrow> (nat \<times> string list) option" where
  "match_at r p s =
     (case rx_match r (p, s, []) of
        [] \<Rightarrow> None
      | (p', s', gs) # _ \<Rightarrow> Some (length s - length s', gs))"

text \<open>\<^verbatim>\<open>re.finditer\<close> (the groups of each match) and \<^verbatim>\<open>re.sub\<close> with a constant
  replacement: the subject is scanned from the left, a match is taken where one starts,
  and the scan goes on behind it. The second argument counts the characters of the
  current match still to be passed over. None of the patterns here matches the empty
  string.\<close>

fun finditer_from :: "rexp \<Rightarrow> nat \<Rightarrow> char option \<Rightarrow> string \<Rightarrow> string list list" where
  "finditer_from r k p [] = []"
| "finditer_from r (Suc k) p (c # cs) = finditer_from r k (Some c) cs"
| "finditer_from r 0 p (c # cs) =
     (case match_at r p (c # cs) of
        None \<Rightarrow> finditer_from r 0 (Some c) cs
      | Some (n, gs) \<Rightarrow> gs # finditer_from r (n - 1) (Some c) cs)"

definition finditer :: "rexp \<Rightarrow> string \<Rightarrow> string list list" where
  "finditer r s = finditer_from r 0 None s"

fun sub_from :: "rexp \<Rightarrow> string \<Rightarrow> nat \<Rightarrow> char option \<Rightarrow> string \<Rightarrow> string" where
  "sub_from r repl k p [] = []"
| "sub_from r repl (Suc k) p (c # cs) = sub_from r repl k (Some c) cs"
| "sub_from r repl 0 p (c # cs) =
     (case match_at r p (c # cs) of
        None \<Rightarrow> c # sub_from r repl 0 (Some c) cs
      | Some (n, gs) \<Rightarrow> repl @ sub_from r repl (n - 1) (Some c) cs)"

definition re_sub :: "rexp \<Rightarrow> string \<Rightarrow> string \<Rightarrow> string" where
  "re_sub r repl s = sub_from r repl 0 None s"

text \<open>\<^verbatim>\<open>a|b|...\<close> over literals, and a sequence of expressions.\<close>

fun alts :: "string list \<Rightarrow> rexp" where
  "alts [] = Fail"
| "alts (l # ls) = Alt (TextI l) (alts ls)"

fun seqs :: "rexp list \<Rightarrow> rexp" where
  "seqs [] = Text []"
| "seqs [r] = r"
| "seqs (r # rs) = Seq r (seqs rs)"

section \<open>String methods used by the parser\<close>

text \<open>\<^verbatim>\<open>s.split(',')\<close>, \<^verbatim>\<open>s.split()\<close>, \<^verbatim>\<open>s.strip()\<close>, \<^verbatim>\<open>' '.join(ws)\<close>,
  \<^verbatim>\<open>s.capitalize()\<close> and \<^verbatim>\<open>int(s)\<close>.\<close>

fun split_on :: "char \<Rightarrow> string \<Rightarrow> string \<Rightarrow> string list" where
  "split_on d [] cur = [cur]"
| "split_on d (c # cs) cur =
     (if c = d then cur # split_on d cs [] else split_on d cs (cur @ [c]))"

fun split_ws :: "string \<Rightarrow> string \<Rightarrow> string list" where
  "split_ws [] cur = (if cur = [] then [] else [cur])"
| "split_ws (c # cs) cur =
     (if is_space c then (if cur = [] then split_ws cs [] else cur # split_ws cs [])
      else split_ws cs (cur @ [c]))"

definition strip :: "string \<Rightarrow> string" where
  "strip s = rev (dropWhile is_space (rev (dropWhile is_space s)))"

fun join :: "string \<Rightarrow> string list \<Rightarrow> string" where
  "join sep [] = []"
| "join sep [w] = w"
| "join sep (w # ws) = w @ sep @ join sep ws"

definition capitalize :: "string \<Rightarrow> string" where
  "capitalize s = (case s of [] \<Rightarrow> [] | c # cs \<Rightarrow> upper_char c # lower cs)"

fun digits_value :: "string \<Rightarrow> int \<Rightarrow> int" where
  "digits_value [] acc = acc"
| "digits_value (c # cs) acc = digits_value cs (10 * acc + (int (of_char c) - 48))"

definition py_int :: "string \<Rightarrow> exn + int" where
  "py_int s =
     (if s \<noteq> [] \<and> (\<forall>c\<in>set s. is_digit c) then Inr (digits_value s 0) else Inl ValueError)"

section \<open>Prompt parser\<close>

definition MONTH_NAMES :: "(string \<times> int) list" where
  "MONTH_NAMES =
     [(''january'', 1), (''jan'', 1),
      (''february'', 2), (''feb'', 2),
      (''march'', 3), (''mar'', 3),
      (''april'', 4), (''apr'', 4),
      (''may'', 5),
      (''june'', 6), (''jun'', 6),
      (''july'', 7), (''jul'', 7),
      (''august'', 8), (''aug'', 8),
      (''september'', 9), (''sep'', 9), (''sept'', 9),
      (''october'', 10), (''oct'', 10),
      (''november'', 11), (''nov'', 11),
      (''december'', 12), (''dec'', 12)]"

definition STOP_WORDS :: "string list" where
  "STOP_WORDS =
     [''a'', ''an'', ''and'', ''or'', ''the'', ''in'', ''on'', ''at'', ''to'', ''for'',
      ''of'', ''with'', ''by'', ''from'', ''create'', ''albums'', ''album'', ''photos'',
      ''organize'', ''sort'', ''group'']"

text \<open>The patterns of \<^verbatim>\<open>extract_album_names\<close>, in the order of their use.\<close>

definition re_create_albums_for :: rexp where
  "re_create_albums_for = seqs [Text ''create album'', Opt (Text ''s''), Text '' for'']"

definition re_organize_into :: rexp where
  "re_organize_into =
     seqs [Text ''organize '', Opt (Group (seqs [Text ''photo'', Opt (Text ''s''), Text '' ''])),
           Text ''into'']"

definition re_sort_by :: rexp where
  "re_sort_by =
     seqs [Text ''sort '', Opt (Group (seqs [Text ''photo'', Opt (Text ''s''), Text '' ''])),
           Text ''by'']"

definition re_year :: rexp where
  "re_year = seqs [Bound, Rep 4 CDigit, Bound]"

definition re_month_full :: rexp where
  "re_month_full =
     seqs [Bound,
           Group (alts [''january'', ''february'', ''march'', ''april'', ''may'', ''june'',
             ''july'', ''august'', ''september'', ''october'', ''november'', ''december'']),
           Bound]"

definition re_month_abbr :: rexp where
  "re_month_abbr =
     seqs [Bound,
           Group (alts [''jan'', ''feb'', ''mar'', ''apr'', ''may'', ''jun'', ''jul'', ''aug'',
             ''sep'', ''sept'', ''oct'', ''nov'', ''dec'']),
           Bound]"

definition re_yyyy_mm :: rexp where
  "re_yyyy_mm = seqs [Rep 4 CDigit, Text ''-'', Rep 2 CDigit]"

definition re_and :: rexp where
  "re_and = seqs [Plus CSpace, Text ''and'', Plus CSpace]"

definition re_or :: rexp where
  "re_or = seqs [Plus CSpace, Text ''or'', Plus CSpace]"

definition extract_album_names :: "string \<Rightarrow> string list" where
  "extract_album_names prompt =
     (let text = lower prompt;
          text = re_sub re_create_albums_for [] text;
          text = re_sub re_organize_into [] text;
          text = re_sub re_sort_by [] text;
          text = re_sub re_year [] text;
          text = re_sub re_month_full [] text;
          text = re_sub re_month_abbr [] text;
          text = re_sub re_yyyy_mm [] text;
          text = re_sub re_and '','' text;
          text = re_sub re_or '','' text;
          parts = map strip (split_on CHR '','' text [])
      in concat (map (\<lambda>part.
           if part \<noteq> [] \<and> length part > 0 then
             (let name = join '' '' (map capitalize (split_ws part []))
              in if name \<noteq> [] then [name] else [])
           else []) parts))"

text \<open>The patterns of \<^verbatim>\<open>extract_dates\<close>; the alternatives of the first are the keys
  of \<^verbatim>\<open>MONTH_NAMES\<close> in the order of the dictionary.\<close>

definition pattern1 :: rexp where
  "pattern1 = seqs [Bound, Group (alts (map fst MONTH_NAMES)), Plus CSpace,
                    Group (Rep 4 CDigit), Bound]"

definition pattern2 :: rexp where
  "pattern2 = seqs [Bound, Group (Rep 4 CDigit), Text ''-'', Group (Rep 2 CDigit), Bound]"

definition pattern3 :: rexp where
  "pattern3 = seqs [Bound, Group (Rep 4 CDigit), Bound]"

text \<open>\<^verbatim>\<open>match.group(i)\<close>; a group that does not exist raises \<^verbatim>\<open>IndexError\<close>.\<close>

definition match_group :: "string list \<Rightarrow> nat \<Rightarrow> exn + string" where
  "match_group gs i = (if 1 \<le> i \<and> i \<le> length gs then Inr (gs ! (i - 1)) else Inl IndexError)"

definition DateFilter_of :: "int option \<Rightarrow> int option \<Rightarrow> DateFilter" where
  "DateFilter_of y m = \<lparr>year = y, month = m, start_date = None, end_date = None\<rparr>"

text \<open>The bodies of the three loops of \<^verbatim>\<open>extract_dates\<close>, each on the list of date
  filters collected so far.\<close>

definition step1 :: "DateFilter list \<Rightarrow> string list \<Rightarrow> exn + DateFilter list" where
  "step1 date_filters m =
     (case match_group m 1 of
        Inl e \<Rightarrow> Inl e
      | Inr g1 \<Rightarrow>
          (let month_name = lower g1 in
           case match_group m 2 of
             Inl e \<Rightarrow> Inl e
           | Inr g2 \<Rightarrow>
               (case py_int g2 of
                  Inl e \<Rightarrow> Inl e
                | Inr y \<Rightarrow>
                    (case map_of MONTH_NAMES month_name of
                       None \<Rightarrow> Inl KeyError
                     | Some mo \<Rightarrow> Inr (date_filters @ [DateFilter_of (Some y) (Some mo)])))))"

definition step2 :: "DateFilter list \<Rightarrow> string list \<Rightarrow> exn + DateFilter list" where
  "step2 date_filters m =
     (case match_group m 1 of
        Inl e \<Rightarrow> Inl e
      | Inr g1 \<Rightarrow>
          (case py_int g1 of
             Inl e \<Rightarrow> Inl e
           | Inr y \<Rightarrow>
               (case match_group m 2 of
                  Inl e \<Rightarrow> Inl e
                | Inr g2 \<Rightarrow>
                    (case py_int g2 of
                       Inl e \<Rightarrow> Inl e
                     | Inr mo \<Rightarrow>
                         if 1 \<le> mo \<and> mo \<le> 12
                         then Inr (date_filters @ [DateFilter_of (Some y) (Some mo)])
                         else Inr date_filters))))"

definition step3 :: "DateFilter list \<Rightarrow> string list \<Rightarrow> exn + DateFilter list" where
  "step3 date_filters m =
     (case match_group m 1 of
        Inl e \<Rightarrow> Inl e
      | Inr g1 \<Rightarrow>
          (case py_int g1 of
             Inl e \<Rightarrow> Inl e
           | Inr y \<Rightarrow>
               if 2000 \<le> y \<and> y \<le> 2100
               then Inr (date_filters @ [DateFilter_of (Some y) None])
               else Inr date_filters))"

text \<open>A \<^verbatim>\<open>for\<close> loop over the matches that stops at the first exception.\<close>

fun for_each :: "('s \<Rightarrow> 'a \<Rightarrow> exn + 's) \<Rightarrow> 's \<Rightarrow> 'a list \<Rightarrow> exn + 's" where
  "for_each f st [] = Inr st"
| "for_each f st (x # xs) = (case f st x of Inl e \<Rightarrow> Inl e | Inr st' \<Rightarrow> for_each f st' xs)"

definition extract_dates :: "string \<Rightarrow> exn + DateFilter list" where
  "extract_dates prompt =
     (let text = lower prompt in
      case for_each step1 [] (finditer pattern1 text) of
        Inl e \<Rightarrow> Inl e
      | Inr date_filters \<Rightarrow>
          (case for_each step2 date_filters (finditer pattern2 text) of
             Inl e \<Rightarrow> Inl e
           | Inr date_filters \<Rightarrow>
               if date_filters = [] then for_each step3 date_filters (finditer pattern3 text)
               else Inr date_filters))"

definition extract_keywords :: "string \<Rightarrow> string list" where
  "extract_keywords album_name =
     (let ws = split_ws (lower album_name) [];
          kws = filter (\<lambda>w. w \<notin> set STOP_WORDS) ws
      in if lower album_name \<notin> set kws then lower album_name # kws else kws)"

text \<open>\<^verbatim>\<open>parse\<close>: the names are extracted first, then the dates; every spec gets the
  first date filter, if there is one.\<close>

definition parse :: "string \<Rightarrow> exn + AlbumSpec list" where
  "parse prompt =
     (let album_names = extract_album_names prompt in
      case extract_dates prompt of
        Inl e \<Rightarrow> Inl e
      | Inr dates \<Rightarrow>
          Inr (map (\<lambda>name.
                 \<lparr>name = name, keywords_list = extract_keywords name,
                  date_filter = (case dates of [] \<Rightarrow> None | d # _ \<Rightarrow> Some d),
                  original_prompt = prompt\<rparr>) album_names))"

section \<open>Auxiliary notions for the properties\<close>

text \<open>Where the loop of \<^verbatim>\<open>match\<close> puts a photo: into the bucket \<open>k\<close> when the first
  matching spec has the non-empty name \<open>k\<close>, and among the unmatched photos when no spec
  matches or the first matching spec has the empty name.\<close>

definition assigned :: "regex_search \<Rightarrow> AlbumSpec list \<Rightarrow> string \<Rightarrow> PhotoMetadata \<Rightarrow> bool" where
  "assigned rx specs k p = (k \<noteq> [] \<and> find_album rx specs p = Inr (Some k))"

definition left_over :: "regex_search \<Rightarrow> AlbumSpec list \<Rightarrow> PhotoMetadata \<Rightarrow> bool" where
  "left_over rx specs p =
     (find_album rx specs p = Inr None \<or> find_album rx specs p = Inr (Some []))"

definition bucket_total :: "(string \<times> PhotoMetadata list) list \<Rightarrow> nat" where
  "bucket_total d = sum_list (map (\<lambda>(k, ps). length ps) d)"

definition bucket_photos :: "(string \<times> PhotoMetadata list) list \<Rightarrow> PhotoMetadata list" where
  "bucket_photos d = concat (map snd d)"

text \<open>
  The wildcard reading of a keyword, in the words of the specification: every character
  but \<^verbatim>\<open>*\<close> stands for itself, \<^verbatim>\<open>*\<close> stands for zero or more characters, the
  keyword is anchored at the start of the text and open at its end. It is applied to the
  lower-cased keyword and the lower-cased text.
\<close>

fun wildcard_spec :: "string \<Rightarrow> string \<Rightarrow> bool" where
  "wildcard_spec [] t = True"
| "wildcard_spec (k # ks) [] = (k = CHR ''*'' \<and> wildcard_spec ks [])"
| "wildcard_spec (k # ks) (c # t) =
     (if k = CHR ''*'' then wildcard_spec ks (c # t) \<or> wildcard_spec (k # ks) t
      else k = c \<and> wildcard_spec ks t)"

text \<open>A keyword whose characters other than \<^verbatim>\<open>*\<close> mean nothing to \<^verbatim>\<open>re\<close>, and the
  pattern items that \<^verbatim>\<open>'^' + keyword.replace('*', '.*')\<close> then compiles to.\<close>

definition plain_keyword :: "string \<Rightarrow> bool" where
  "plain_keyword k = (\<forall>c\<in>set k. c \<noteq> CHR ''*'' \<longrightarrow> \<not> re_special c)"

definition keyword_items :: "string \<Rightarrow> re_item list" where
  "keyword_items k = map (\<lambda>c. if c = CHR ''*'' then AnyStar else Lit c) k"

text \<open>Records for the examples: a photo known by its file name only, a photo with a
  file creation date, and a spec without date filter.\<close>

definition photo_named :: "string \<Rightarrow> PhotoMetadata" where
  "photo_named f = \<lparr>path = f, filename = f, folder_name = ''photos'', file_created = None,
     file_modified = None, exif_date = None, exif_location = None, size_bytes = 0\<rparr>"

definition day :: "int \<Rightarrow> int \<Rightarrow> int \<Rightarrow> datetime" where
  "day y m d = \<lparr>dt_year = y, dt_month = m, dt_day = d, dt_hour = 0, dt_minute = 0,
     dt_second = 0, dt_microsecond = 0\<rparr>"

definition photo_created :: "string \<Rightarrow> datetime \<Rightarrow> PhotoMetadata" where
  "photo_created f d = (photo_named f)\<lparr>file_created := Some d, file_modified := Some d\<rparr>"

definition album :: "string \<Rightarrow> string list \<Rightarrow> AlbumSpec" where
  "album n kws = \<lparr>name = n, keywords_list = kws, date_filter = None, original_prompt = []\<rparr>"

definition vacation_2024 :: AlbumSpec where
  "vacation_2024 = (album ''Vacation'' [''vacation''])
     \<lparr>date_filter := Some \<lparr>year = Some 2024, month = None, start_date = None, end_date = None\<rparr>\<rparr>"


text \<open>
  The three categories of date expressions, in the words of the specification: the
  "month-name year" matches, the valid "YYYY-MM" tokens (month 1 to 12) and the bare
  years from 2000 to 2100, each in the order in which the scan from the left finds them.
\<close>

definition month_year_filters :: "string \<Rightarrow> DateFilter list" where
  "month_year_filters text =
     map (\<lambda>m. DateFilter_of (Some (digits_value (m ! 1) 0)) (map_of MONTH_NAMES (lower (m ! 0))))
       (finditer pattern1 text)"

definition year_month_filters :: "string \<Rightarrow> DateFilter list" where
  "year_month_filters text =
     map (\<lambda>m. DateFilter_of (Some (digits_value (m ! 0) 0)) (Some (digits_value (m ! 1) 0)))
       (filter (\<lambda>m. 1 \<le> digits_value (m ! 1) 0 \<and> digits_value (m ! 1) 0 \<le> 12)
          (finditer pattern2 text))"

definition bare_year_filters :: "string \<Rightarrow> DateFilter list" where
  "bare_year_filters text =
     map (\<lambda>m. DateFilter_of (Some (digits_value (m ! 0) 0)) None)
       (filter (\<lambda>m. 2000 \<le> digits_value (m ! 0) 0 \<and> digits_value (m ! 0) 0 \<le> 2100)
          (finditer pattern3 text))"

text \<open>The groups and the remaining text of a position, and the shapes of the groups
  that the three date patterns capture.\<close>

definition groups_of :: "config \<Rightarrow> string list" where
  "groups_of cfg = snd (snd cfg)"

definition rest_of :: "config \<Rightarrow> string" where
  "rest_of cfg = fst (snd cfg)"

definition month_groups :: "string list \<Rightarrow> bool" where
  "month_groups gs = (\<exists>g1 g2. gs = [g1, g2] \<and> lower g1 \<in> set (map fst MONTH_NAMES) \<and>
      length g2 = 4 \<and> (\<forall>x\<in>set g2. is_digit x))"

definition digit_groups :: "nat list \<Rightarrow> string list \<Rightarrow> bool" where
  "digit_groups ns gs = (map length gs = ns \<and> (\<forall>g\<in>set gs. \<forall>x\<in>set g. is_digit x))"


text \<open>Every filter of a list has its year set.\<close>

definition all_have_year :: "DateFilter list \<Rightarrow> bool" where
  "all_have_year ds = (\<forall>d\<in>set ds. year d \<noteq> None)"

lemmas fixture_defs = photo_named_def photo_created_def day_def album_def


section \<open>Facts about characters and strings\<close>

text \<open>The character classes and the case mappings on the bits of a character, for
  evaluation.\<close>

lemma is_ascii_code [code]:
  "is_ascii (Char b0 b1 b2 b3 b4 b5 b6 b7) = (\<not> b7)"
  by (cases b0; cases b1; cases b2; cases b3; cases b4; cases b5; cases b6; cases b7;
      simp add: is_ascii_def)

lemma is_upper_code [code]:
  "is_upper (Char b0 b1 b2 b3 b4 b5 b6 b7) =
     (\<not> b7 \<and> b6 \<and> \<not> b5 \<and> (b0 \<or> b1 \<or> b2 \<or> b3 \<or> b4) \<and>
      \<not> (b4 \<and> b3 \<and> (b2 \<or> (b1 \<and> b0))))"
  by (cases b0; cases b1; cases b2; cases b3; cases b4; cases b5; cases b6; cases b7;
      simp add: is_upper_def)

lemma is_lower_code [code]:
  "is_lower (Char b0 b1 b2 b3 b4 b5 b6 b7) =
     (\<not> b7 \<and> b6 \<and> b5 \<and> (b0 \<or> b1 \<or> b2 \<or> b3 \<or> b4) \<and>
      \<not> (b4 \<and> b3 \<and> (b2 \<or> (b1 \<and> b0))))"
  by (cases b0; cases b1; cases b2; cases b3; cases b4; cases b5; cases b6; cases b7;
      simp add: is_lower_def)

lemma is_digit_code [code]:
  "is_digit (Char b0 b1 b2 b3 b4 b5 b6 b7) =
     (\<not> b7 \<and> \<not> b6 \<and> b5 \<and> b4 \<and> \<not> (b3 \<and> (b2 \<or> b1)))"
  by (cases b0; cases b1; cases b2; cases b3; cases b4; cases b5; cases b6; cases b7;
      simp add: is_digit_def)

lemma is_space_code [code]:
  "is_space (Char b0 b1 b2 b3 b4 b5 b6 b7) =
     (\<not> b7 \<and> \<not> b6 \<and>
      (if b5 then \<not> b4 \<and> \<not> b3 \<and> \<not> b2 \<and> \<not> b1 \<and> \<not> b0
       else b3 \<and> (if b4 then b2 else (b2 \<and> \<not> b1) \<or> (\<not> b2 \<and> (b1 \<or> b0)))))"
  by (cases b0; cases b1; cases b2; cases b3; cases b4; cases b5; cases b6; cases b7;
      simp add: is_space_def)

lemma lower_char_code [code]:
  "lower_char (Char b0 b1 b2 b3 b4 b5 b6 b7) =
     (if is_upper (Char b0 b1 b2 b3 b4 b5 b6 b7) then Char b0 b1 b2 b3 b4 True b6 b7
      else Char b0 b1 b2 b3 b4 b5 b6 b7)"
  by (cases b0; cases b1; cases b2; cases b3; cases b4; cases b5; cases b6; cases b7;
      simp add: lower_char_def is_upper_def char_of_def bit_Suc_0_iff)

lemma upper_char_code [code]:
  "upper_char (Char b0 b1 b2 b3 b4 b5 b6 b7) =
     (if is_lower (Char b0 b1 b2 b3 b4 b5 b6 b7) then Char b0 b1 b2 b3 b4 False b6 b7
      else Char b0 b1 b2 b3 b4 b5 b6 b7)"
  by (cases b0; cases b1; cases b2; cases b3; cases b4; cases b5; cases b6; cases b7;
      simp add: upper_char_def is_lower_def char_of_def bit_Suc_0_iff)


lemma of_char_lower_char:
  "of_char (lower_char c) = (if is_upper c then of_char c + 32 else (of_char c :: nat))"
  by (simp add: lower_char_def is_upper_def)

lemma lower_char_idem: "lower_char (lower_char c) = lower_char c"
proof -
  have "\<not> is_upper (lower_char c)"
    by (auto simp: is_upper_def [of "lower_char c"] of_char_lower_char)
       (simp_all add: is_upper_def)
  then show ?thesis by (simp add: lower_char_def [of "lower_char c"])
qed

lemma lower_char_eq_star: "lower_char c = CHR ''*'' \<longleftrightarrow> c = CHR ''*''"
proof
  assume h: "lower_char c = CHR ''*''"
  then have "(of_char (lower_char c) :: nat) = 42" by simp
  then have "\<not> is_upper c" by (auto simp: of_char_lower_char is_upper_def split: if_splits)
  with h show "c = CHR ''*''" by (simp add: lower_char_def)
next
  assume "c = CHR ''*''"
  then show "lower_char c = CHR ''*''" by (simp add: lower_char_def is_upper_def)
qed

lemma lower_char_eq_lf: "lower_char c = CHR 0x0A \<longleftrightarrow> c = CHR 0x0A"
proof
  assume h: "lower_char c = CHR 0x0A"
  then have "(of_char (lower_char c) :: nat) = 10" by simp
  then have "\<not> is_upper c" by (auto simp: of_char_lower_char is_upper_def split: if_splits)
  with h show "c = CHR 0x0A" by (simp add: lower_char_def)
next
  assume "c = CHR 0x0A"
  then show "lower_char c = CHR 0x0A" by (simp add: lower_char_def is_upper_def)
qed

lemma startswith_iff: "startswith s p \<longleftrightarrow> (\<exists>r. s = p @ r)"
  by (induction s p rule: startswith.induct) auto

lemma str_contains_iff: "str_contains hay needle \<longleftrightarrow> (\<exists>pre post. hay = pre @ needle @ post)"
proof (induction hay)
  case Nil
  then show ?case by auto
next
  case (Cons c cs)
  show ?case
  proof
    assume "str_contains (c # cs) needle"
    then consider "startswith (c # cs) needle" | "str_contains cs needle" by auto
    then show "\<exists>pre post. c # cs = pre @ needle @ post"
    proof cases
      case 1
      then obtain r where "c # cs = needle @ r" by (auto simp: startswith_iff)
      then have "c # cs = [] @ needle @ r" by simp
      then show ?thesis by blast
    next
      case 2
      with Cons obtain pre post where "cs = pre @ needle @ post" by blast
      then have "c # cs = (c # pre) @ needle @ post" by simp
      then show ?thesis by blast
    qed
  next
    assume "\<exists>pre post. c # cs = pre @ needle @ post"
    then obtain pre post where eq: "c # cs = pre @ needle @ post" by blast
    show "str_contains (c # cs) needle"
    proof (cases pre)
      case Nil
      with eq have "startswith (c # cs) needle" by (auto simp: startswith_iff)
      then show ?thesis by simp
    next
      case (Cons a pre')
      with eq have "cs = pre' @ needle @ post" by simp
      with Cons.IH have "str_contains cs needle" by blast
      then show ?thesis by simp
    qed
  qed
qed

section \<open>The keyword pattern and the wildcard reading\<close>

lemma re_parse_plain:
  "plain_keyword k \<Longrightarrow> re_parse (replace_star k) = Some (keyword_items k)"
proof (induction k)
  case Nil
  then show ?case by (simp add: keyword_items_def)
next
  case (Cons c k)
  then have IH: "re_parse (replace_star k) = Some (keyword_items k)"
    by (simp add: plain_keyword_def)
  show ?case
  proof (cases "c = CHR ''*''")
    case True
    with IH show ?thesis by (simp add: keyword_items_def)
  next
    case False
    with Cons.prems have ns: "\<not> re_special c" by (simp add: plain_keyword_def)
    then have "c \<noteq> CHR ''.''" by (auto simp: re_special_def)
    with False ns IH show ?thesis by (simp add: keyword_items_def)
  qed
qed

lemma replace_star_no_repeat:
  "plain_keyword k \<Longrightarrow> \<not> startswith (replace_star k) ''+'' \<and> \<not> startswith (replace_star k) ''?''"
  by (cases k) (auto simp: plain_keyword_def re_special_def)

lemma re_match_here_keyword:
  "plain_keyword k \<Longrightarrow> CHR 0x0A \<notin> set u \<Longrightarrow> (\<forall>d\<in>set u. lower_char d = d) \<Longrightarrow>
   re_match_here (keyword_items k) u = wildcard_spec (lower k) u"
proof (induction k arbitrary: u)
  case Nil
  then show ?case by (simp add: keyword_items_def lower_def)
next
  case (Cons c k)
  from Cons.prems(1) have pk: "plain_keyword k" by (simp add: plain_keyword_def)
  note IH = Cons.IH [OF pk]
  show ?case
  proof (cases "c = CHR ''*''")
    case True
    have "CHR 0x0A \<notin> set v \<Longrightarrow> (\<forall>d\<in>set v. lower_char d = d) \<Longrightarrow>
          re_match_here (AnyStar # keyword_items k) v = wildcard_spec (CHR ''*'' # lower k) v" for v
    proof (induction v)
      case Nil
      with IH [of "[]"] show ?case by simp
    next
      case (Cons d t)
      from Cons.prems IH [of "d # t"] have
        "re_match_here (keyword_items k) (d # t) = wildcard_spec (lower k) (d # t)" by blast
      moreover from Cons have
        "re_match_here (AnyStar # keyword_items k) t = wildcard_spec (CHR ''*'' # lower k) t"
        by simp
      moreover from Cons.prems have "d \<noteq> CHR 0x0A" by auto
      ultimately show ?case by simp
    qed
    moreover have "lower_char CHR ''*'' = CHR ''*''" by (simp add: lower_char_eq_star)
    ultimately show ?thesis using Cons.prems True
      by (simp add: keyword_items_def lower_def)
  next
    case False
    then have ns: "lower_char c \<noteq> CHR ''*''" by (simp add: lower_char_eq_star)
    show ?thesis
    proof (cases u)
      case Nil
      with False ns show ?thesis by (simp add: keyword_items_def lower_def)
    next
      case (Cons d t)
      with Cons.prems have "CHR 0x0A \<notin> set t" "\<forall>d\<in>set t. lower_char d = d" "lower_char d = d"
        by simp_all
      with IH [of t] Cons False ns show ?thesis
        by (auto simp: keyword_items_def lower_def)
    qed
  qed
qed

lemma lower_fix: "\<forall>d\<in>set (lower t). lower_char d = d"
  by (auto simp: lower_def lower_char_idem)

lemma lower_lf: "CHR 0x0A \<in> set (lower t) \<longleftrightarrow> CHR 0x0A \<in> set t"
proof -
  have "CHR 0x0A \<in> set (lower t) \<longleftrightarrow> (\<exists>x\<in>set t. lower_char x = CHR 0x0A)"
    by (simp add: lower_def image_iff) metis
  then show ?thesis by (simp add: lower_char_eq_lf)
qed

lemma re_search_plain:
  assumes "plain_keyword k" and "CHR 0x0A \<notin> set t"
  shows "re_search (CHR ''^'' # replace_star k) (lower t) = Inr (wildcard_spec (lower k) (lower t))"
proof -
  from assms(2) have "CHR 0x0A \<notin> set (lower t)" by (simp add: lower_lf)
  from re_match_here_keyword [OF assms(1) this lower_fix]
  show ?thesis
    using re_parse_plain [OF assms(1)] replace_star_no_repeat [OF assms(1)]
    by (simp add: re_search_def)
qed

lemma wildcard_spec_literal:
  "CHR ''*'' \<notin> set k \<Longrightarrow> wildcard_spec k t = (\<exists>r. t = k @ r)"
  by (induction k t rule: wildcard_spec.induct) auto

lemma wildcard_spec_star:
  "wildcard_spec (CHR ''*'' # ks) t = (\<exists>mid r. t = mid @ r \<and> wildcard_spec ks r)"
proof (induction t)
  case Nil
  then show ?case by simp
next
  case (Cons c t)
  show ?case
  proof
    assume "wildcard_spec (CHR ''*'' # ks) (c # t)"
    then consider "wildcard_spec ks (c # t)" | "wildcard_spec (CHR ''*'' # ks) t" by auto
    then show "\<exists>mid r. c # t = mid @ r \<and> wildcard_spec ks r"
    proof cases
      case 1
      then have "c # t = [] @ (c # t) \<and> wildcard_spec ks (c # t)" by simp
      then show ?thesis by blast
    next
      case 2
      with Cons obtain mid r where "t = mid @ r" "wildcard_spec ks r" by blast
      then have "c # t = (c # mid) @ r \<and> wildcard_spec ks r" by simp
      then show ?thesis by blast
    qed
  next
    assume "\<exists>mid r. c # t = mid @ r \<and> wildcard_spec ks r"
    then obtain mid r where eq: "c # t = mid @ r" and w: "wildcard_spec ks r" by blast
    show "wildcard_spec (CHR ''*'' # ks) (c # t)"
    proof (cases mid)
      case Nil
      with eq w have "wildcard_spec ks (c # t)" by simp
      then show ?thesis by simp
    next
      case (Cons a mid')
      with eq have "t = mid' @ r" by simp
      with w Cons.IH have "wildcard_spec (CHR ''*'' # ks) t" by blast
      then show ?thesis by simp
    qed
  qed
qed

lemma wildcard_spec_append:
  "CHR ''*'' \<notin> set pre \<Longrightarrow> wildcard_spec (pre @ ks) t = (\<exists>r. t = pre @ r \<and> wildcard_spec ks r)"
  by (induction pre t rule: wildcard_spec.induct) auto

lemma wildcard_spec_single:
  assumes "CHR ''*'' \<notin> set pre" and "CHR ''*'' \<notin> set post"
  shows "wildcard_spec (pre @ CHR ''*'' # post) t = (\<exists>mid r. t = pre @ mid @ post @ r)"
  using assms
  by (simp add: wildcard_spec_append wildcard_spec_star wildcard_spec_literal) blast

section \<open>Facts about the matching loop\<close>

lemma find_album_first:
  "i < length specs \<Longrightarrow> matches_spec rx p (specs ! i) = Inr True \<Longrightarrow>
   (\<forall>j<i. matches_spec rx p (specs ! j) = Inr False) \<Longrightarrow>
   find_album rx specs p = Inr (Some (name (specs ! i)))"
proof (induction specs arbitrary: i)
  case Nil
  then show ?case by simp
next
  case (Cons s specs)
  show ?case
  proof (cases i)
    case 0
    with Cons.prems show ?thesis by simp
  next
    case (Suc i')
    from Cons.prems(3) Suc have s: "matches_spec rx p s = Inr False"
      by (metis nth_Cons_0 zero_less_Suc)
    have rest: "\<forall>j<i'. matches_spec rx p (specs ! j) = Inr False"
    proof (intro allI impI)
      fix j assume "j < i'"
      then have "Suc j < i" using Suc by simp
      with Cons.prems(3) have "matches_spec rx p ((s # specs) ! Suc j) = Inr False" by blast
      then show "matches_spec rx p (specs ! j) = Inr False" by simp
    qed
    from Cons.prems(1,2) Suc have "i' < length specs" "matches_spec rx p (specs ! i') = Inr True"
      by simp_all
    from Cons.IH [OF this rest] s Suc show ?thesis by simp
  qed
qed

lemma find_album_none:
  "(\<forall>s\<in>set specs. matches_spec rx p s = Inr False) \<Longrightarrow> find_album rx specs p = Inr None"
  by (induction specs) simp_all

lemma find_album_in_names:
  "find_album rx specs p = Inr (Some k) \<Longrightarrow> k \<in> name ` set specs"
  by (induction specs) (auto split: sum.splits if_splits)

lemma init_matched_keys:
  "fst ` set (init_matched specs d) = name ` set specs \<union> fst ` set d"
  by (induction specs arbitrary: d) (auto simp: dom_update)

lemma init_matched_distinct:
  "distinct (map fst d) \<Longrightarrow> distinct (map fst (init_matched specs d))"
  by (induction specs arbitrary: d) (auto simp: distinct_update)

lemma update_values:
  "snd ` set (AList.update k v d) \<subseteq> insert v (snd ` set d)"
  by (induction d) auto

lemma init_matched_values:
  "snd ` set (init_matched specs d) \<subseteq> insert [] (snd ` set d)"
proof (induction specs arbitrary: d)
  case Nil
  then show ?case by auto
next
  case (Cons s specs)
  have "snd ` set (init_matched specs (AList.update (name s) [] d))
          \<subseteq> insert [] (snd ` set (AList.update (name s) [] d))"
    by (rule Cons.IH)
  also have "\<dots> \<subseteq> insert [] (snd ` set d)"
    using update_values [of "name s" "[]" d] by auto
  finally show ?case by simp
qed
lemma bucket_total_update:
  "map_of d k = Some ps \<Longrightarrow>
   bucket_total (AList.update k (ps @ [p]) d) = Suc (bucket_total d)"
  by (induction d) (auto simp: bucket_total_def split: if_splits)

lemma bucket_photos_update:
  "map_of d k = Some ps \<Longrightarrow>
   mset (bucket_photos (AList.update k (ps @ [p]) d)) = add_mset p (mset (bucket_photos d))"
  by (induction d) (auto simp: bucket_photos_def split: if_splits)

lemma match_loop_total:
  "match_loop rx specs photos (d, um) = Inr (d', um') \<Longrightarrow>
   bucket_total d' + length um' = bucket_total d + length um + length photos"
proof (induction photos arbitrary: d um)
  case Nil
  then show ?case by simp
next
  case (Cons p photos)
  then show ?case
    by (auto simp: bucket_append_def bucket_total_update
        split: sum.splits option.splits if_splits)
qed

lemma match_loop_mset:
  "match_loop rx specs photos (d, um) = Inr (d', um') \<Longrightarrow>
   mset (bucket_photos d') + mset um' = mset (bucket_photos d) + mset um + mset photos"
proof (induction photos arbitrary: d um)
  case Nil
  then show ?case by simp
next
  case (Cons p photos)
  then show ?case
    by (auto simp: bucket_append_def bucket_photos_update
        split: sum.splits option.splits if_splits)
qed

lemma match_loop_keys:
  "match_loop rx specs photos (d, um) = Inr (d', um') \<Longrightarrow> map fst d' = map fst d"
proof (induction photos arbitrary: d um)
  case Nil
  then show ?case by simp
next
  case (Cons p photos)
  have upd: "map fst (AList.update k v d) = map fst d" if "map_of d k = Some ps" for k v ps
    using that by (induction d) (auto split: if_splits)
  from Cons show ?case
    by (auto simp: bucket_append_def upd
        split: sum.splits option.splits if_splits)
qed

lemma match_loop_buckets:
  "match_loop rx specs photos (d, um) = Inr (d', um') \<Longrightarrow>
   um' = um @ filter (left_over rx specs) photos \<and>
   (\<forall>k. map_of d' k = map_option (\<lambda>ps. ps @ filter (assigned rx specs k) photos) (map_of d k))"
proof (induction photos arbitrary: d um)
  case Nil
  then show ?case by (simp add: option.map_ident)
next
  case (Cons p photos)
  show ?case
  proof (cases "find_album rx specs p")
    case (Inl e)
    with Cons.prems show ?thesis by simp
  next
    case (Inr a)
    show ?thesis
    proof (cases "\<exists>k. a = Some k \<and> k \<noteq> []")
      case True
      then obtain k where a: "a = Some k" and k: "k \<noteq> []" by blast
      from Cons.prems Inr a k obtain ps where
        ps: "map_of d k = Some ps" and
        rest: "match_loop rx specs photos (AList.update k (ps @ [p]) d, um) = Inr (d', um')"
        by (auto simp: bucket_append_def split: option.splits)
      from Cons.IH [OF rest] Inr a k ps show ?thesis
        by (auto simp: update_conv' assigned_def left_over_def)
    next
      case False
      with Cons.prems Inr have
        rest: "match_loop rx specs photos (d, um @ [p]) = Inr (d', um')"
        by (cases a) (auto split: if_splits)
      from False Inr have lo: "left_over rx specs p" and na: "\<And>k. \<not> assigned rx specs k p"
        by (cases a; auto simp: left_over_def assigned_def)+
      from Cons.IH [OF rest] lo na show ?thesis by simp
    qed
  qed
qed

lemma match_loop_defined:
  "match_loop rx specs photos (d, um) = Inr st \<Longrightarrow> p \<in> set photos \<Longrightarrow>
   \<exists>a. find_album rx specs p = Inr a"
proof (induction photos arbitrary: d um)
  case Nil
  then show ?case by simp
next
  case (Cons q photos)
  then show ?case
    by (auto simp: bucket_append_def split: sum.splits option.splits if_splits)
qed

lemma init_matched_map_of:
  "map_of (init_matched specs []) k = (if k \<in> name ` set specs then Some [] else None)"
proof (cases "k \<in> name ` set specs")
  case True
  then have "k \<in> fst ` set (init_matched specs [])"
    by (simp add: init_matched_keys)
  then obtain v where v: "map_of (init_matched specs []) k = Some v"
    by (metis domD dom_map_of_conv_image_fst)
  then have "(k, v) \<in> set (init_matched specs [])"
    by (rule map_of_SomeD)
  then have "v \<in> snd ` set (init_matched specs [])"
    by force
  with init_matched_values [of specs "[]"] have "v = []" by auto
  with v True show ?thesis by simp
next
  case False
  then have "k \<notin> fst ` set (init_matched specs [])"
    by (simp add: init_matched_keys)
  then have "map_of (init_matched specs []) k = None"
    by (simp add: map_of_eq_None_iff)
  with False show ?thesis by simp
qed

lemma match_result:
  assumes "match rx specs photos = Inr r"
  shows "unmatched r = filter (left_over rx specs) photos"
    and "distinct (map fst (matched r))"
    and "fst ` set (matched r) = name ` set specs"
    and "(k, ps) \<in> set (matched r) \<Longrightarrow> ps = filter (assigned rx specs k) photos"
    and "bucket_total (matched r) + length (unmatched r) = length photos"
    and "mset (bucket_photos (matched r)) + mset (unmatched r) = mset photos"
proof -
  from assms obtain d um where
    loop: "match_loop rx specs photos (init_matched specs [], []) = Inr (d, um)" and
    r: "matched r = d" "unmatched r = um"
    by (auto simp: match_def split: sum.splits)
  from match_loop_buckets [OF loop] have
    um: "um = filter (left_over rx specs) photos" and
    d: "\<And>k. map_of d k =
          map_option (\<lambda>ps. ps @ filter (assigned rx specs k) photos)
            (map_of (init_matched specs []) k)"
    by simp_all
  from um r show "unmatched r = filter (left_over rx specs) photos" by simp
  have keys: "map fst d = map fst (init_matched specs [])"
    by (rule match_loop_keys [OF loop])
  have "distinct (map fst (init_matched specs []))"
    by (rule init_matched_distinct) simp
  with keys r show dist: "distinct (map fst (matched r))" by simp
  from keys have "fst ` set d = fst ` set (init_matched specs [])"
    by (metis list.set_map)
  with r show "fst ` set (matched r) = name ` set specs"
    by (simp add: init_matched_keys)
  show "ps = filter (assigned rx specs k) photos" if "(k, ps) \<in> set (matched r)"
  proof -
    from that dist r have "map_of d k = Some ps" by simp
    with d [of k] show ?thesis
      by (auto simp: init_matched_map_of split: if_splits)
  qed
  have zero: "bucket_total (init_matched specs []) = 0"
    using init_matched_values [of specs "[]"]
    by (auto simp: bucket_total_def)
  from match_loop_total [OF loop] zero r
  show "bucket_total (matched r) + length (unmatched r) = length photos" by simp
  have empty: "bucket_photos (init_matched specs []) = []"
    using init_matched_values [of specs "[]"]
    by (auto simp: bucket_photos_def)
  from match_loop_mset [OF loop] empty r
  show "mset (bucket_photos (matched r)) + mset (unmatched r) = mset photos" by simp
qed

section \<open>When the matcher returns\<close>

lemma match_filename_defined:
  "(\<forall>k\<in>set kws. CHR ''*'' \<in> set k \<longrightarrow> (\<forall>t. \<exists>b. rx (CHR ''^'' # replace_star k) t = Inr b)) \<Longrightarrow>
   \<exists>b. match_filename rx photo kws = Inr b"
proof (induction kws)
  case Nil
  then show ?case by auto
next
  case (Cons k kws)
  then have IH: "\<exists>b. match_filename rx photo kws = Inr b" by simp
  show ?case
  proof (cases "CHR ''*'' \<in> set k")
    case True
    with Cons.prems obtain b where
      "rx (CHR ''^'' # replace_star k) (lower (filename photo)) = Inr b"
      by (metis list.set_intros(1))
    with True IH show ?thesis by auto
  next
    case False
    with IH show ?thesis by auto
  qed
qed

lemma match_folder_defined:
  "(\<forall>k\<in>set kws. CHR ''*'' \<in> set k \<longrightarrow> (\<forall>t. \<exists>b. rx (CHR ''^'' # replace_star k) t = Inr b)) \<Longrightarrow>
   \<exists>b. match_folder rx photo kws = Inr b"
proof (induction kws)
  case Nil
  then show ?case by auto
next
  case (Cons k kws)
  then have IH: "\<exists>b. match_folder rx photo kws = Inr b" by simp
  show ?case
  proof (cases "CHR ''*'' \<in> set k")
    case True
    with Cons.prems obtain b where
      "rx (CHR ''^'' # replace_star k) (lower (folder_name photo)) = Inr b"
      by (metis list.set_intros(1))
    with True IH show ?thesis by auto
  next
    case False
    with IH show ?thesis by auto
  qed
qed

lemma matches_spec_keyword_match: "matches_spec rx photo spec = keyword_match rx photo spec"
  by (cases "keyword_match rx photo spec")
     (auto simp: matches_spec_def Let_def split: option.splits)

lemma matches_spec_defined:
  assumes "\<forall>k\<in>set (keywords_list spec). CHR ''*'' \<in> set k \<longrightarrow>
             (\<forall>t. \<exists>b. rx (CHR ''^'' # replace_star k) t = Inr b)"
  shows "\<exists>b. matches_spec rx photo spec = Inr b"
proof -
  from match_filename_defined [OF assms] obtain b1 where
    b1: "match_filename rx photo (keywords_list spec) = Inr b1" by blast
  from match_folder_defined [OF assms] obtain b2 where
    b2: "match_folder rx photo (keywords_list spec) = Inr b2" by blast
  from b1 b2 show ?thesis
    by (auto simp: matches_spec_keyword_match keyword_match_def)
qed

lemma find_album_defined:
  "(\<forall>s\<in>set specs. \<forall>k\<in>set (keywords_list s). CHR ''*'' \<in> set k \<longrightarrow>
      (\<forall>t. \<exists>b. rx (CHR ''^'' # replace_star k) t = Inr b)) \<Longrightarrow>
   \<exists>a. find_album rx specs photo = Inr a"
proof (induction specs)
  case Nil
  then show ?case by simp
next
  case (Cons s specs)
  then have IH: "\<exists>a. find_album rx specs photo = Inr a" by simp
  from Cons.prems have "\<forall>k\<in>set (keywords_list s). CHR ''*'' \<in> set k \<longrightarrow>
      (\<forall>t. \<exists>b. rx (CHR ''^'' # replace_star k) t = Inr b)" by simp
  from matches_spec_defined [OF this] obtain b where "matches_spec rx photo s = Inr b"
    by blast
  with IH show ?case by auto
qed

lemma match_loop_returns:
  "(\<forall>p\<in>set photos. \<exists>a. find_album rx specs p = Inr a) \<Longrightarrow>
   name ` set specs \<subseteq> fst ` set d \<Longrightarrow>
   \<exists>st. match_loop rx specs photos (d, um) = Inr st"
proof (induction photos arbitrary: d um)
  case Nil
  then show ?case by simp
next
  case (Cons p photos)
  from Cons.prems(1) obtain a where a: "find_album rx specs p = Inr a" by auto
  from Cons.prems(1) have rest: "\<forall>p\<in>set photos. \<exists>a. find_album rx specs p = Inr a" by simp
  show ?case
  proof (cases "\<exists>k. a = Some k \<and> k \<noteq> []")
    case True
    then obtain k where k: "a = Some k" "k \<noteq> []" by blast
    with a have "k \<in> name ` set specs" by (simp add: find_album_in_names)
    with Cons.prems(2) have "k \<in> fst ` set d" by blast
    then obtain ps where ps: "map_of d k = Some ps"
      by (metis domD dom_map_of_conv_image_fst)
    have "name ` set specs \<subseteq> fst ` set (AList.update k (ps @ [p]) d)"
      using Cons.prems(2) by (auto simp: dom_update)
    from Cons.IH [OF rest this] a k ps show ?thesis
      by (simp add: bucket_append_def)
  next
    case False
    from Cons.IH [OF rest Cons.prems(2)] obtain st where
      "match_loop rx specs photos (d, um @ [p]) = Inr st" by blast
    with False a show ?thesis by (cases a) auto
  qed
qed

lemma match_returns:
  assumes "\<forall>s\<in>set specs. \<forall>k\<in>set (keywords_list s). CHR ''*'' \<in> set k \<longrightarrow>
      (\<forall>t. \<exists>b. rx (CHR ''^'' # replace_star k) t = Inr b)"
  shows "\<exists>r. match rx specs photos = Inr r"
proof -
  have "\<forall>p\<in>set photos. \<exists>a. find_album rx specs p = Inr a"
    using find_album_defined [OF assms] by blast
  moreover have "name ` set specs \<subseteq> fst ` set (init_matched specs [])"
    by (simp add: init_matched_keys)
  ultimately obtain st where
    "match_loop rx specs photos (init_matched specs [], []) = Inr st"
    using match_loop_returns by blast
  then show ?thesis by (cases st) (simp add: match_def)
qed

lemma assigned_unique: "assigned rx specs k p \<Longrightarrow> assigned rx specs k' p \<Longrightarrow> k = k'"
  by (simp add: assigned_def)

lemma assigned_not_left_over: "assigned rx specs k p \<Longrightarrow> \<not> left_over rx specs p"
  by (auto simp: assigned_def left_over_def)

lemma match_places:
  assumes r: "match rx specs photos = Inr r" and p: "p \<in> set photos"
  shows "assigned rx specs k p \<Longrightarrow>
           (\<exists>ps. (k, ps) \<in> set (matched r) \<and> p \<in> set ps) \<and> p \<notin> set (unmatched r) \<and>
           (\<forall>(k', ps)\<in>set (matched r). k' \<noteq> k \<longrightarrow> p \<notin> set ps)"
    and "left_over rx specs p \<Longrightarrow>
           p \<in> set (unmatched r) \<and> (\<forall>(k', ps)\<in>set (matched r). p \<notin> set ps)"
proof -
  note um = match_result(1) [OF r] and keys = match_result(3) [OF r]
    and bucket = match_result(4) [OF r]
  {
    assume a: "assigned rx specs k p"
    then have "find_album rx specs p = Inr (Some k)" by (simp add: assigned_def)
    then have "k \<in> name ` set specs" by (rule find_album_in_names)
    with keys obtain ps where ps: "(k, ps) \<in> set (matched r)" by force
    with bucket have "ps = filter (assigned rx specs k) photos" by blast
    with a p have "p \<in> set ps" by simp
    with ps have one: "\<exists>ps. (k, ps) \<in> set (matched r) \<and> p \<in> set ps" by blast
    from a have two: "p \<notin> set (unmatched r)"
      by (simp add: um assigned_not_left_over)
    have three: "\<forall>(k', ps)\<in>set (matched r). k' \<noteq> k \<longrightarrow> p \<notin> set ps"
    proof (clarify)
      fix k' ps' assume "(k', ps') \<in> set (matched r)" "k' \<noteq> k" "p \<in> set ps'"
      with bucket have "assigned rx specs k' p" by fastforce
      with a \<open>k' \<noteq> k\<close> show False using assigned_unique by blast
    qed
    from one two three
    show "(\<exists>ps. (k, ps) \<in> set (matched r) \<and> p \<in> set ps) \<and> p \<notin> set (unmatched r) \<and>
           (\<forall>(k', ps)\<in>set (matched r). k' \<noteq> k \<longrightarrow> p \<notin> set ps)" by blast
  }
  {
    assume l: "left_over rx specs p"
    with p have one: "p \<in> set (unmatched r)" by (simp add: um)
    have two: "\<forall>(k', ps)\<in>set (matched r). p \<notin> set ps"
    proof (clarify)
      fix k' ps' assume "(k', ps') \<in> set (matched r)" "p \<in> set ps'"
      with bucket have "assigned rx specs k' p" by fastforce
      with l show False using assigned_not_left_over by blast
    qed
    from one two
    show "p \<in> set (unmatched r) \<and> (\<forall>(k', ps)\<in>set (matched r). p \<notin> set ps)" by blast
  }
qed

lemma match_filename_spec:
  assumes "\<forall>k\<in>set kws. CHR ''*'' \<in> set k \<longrightarrow>
             plain_keyword k \<and> CHR 0x0A \<notin> set (filename photo)"
  shows "match_filename re_search photo kws =
     Inr (\<exists>k\<in>set kws.
            if CHR ''*'' \<in> set k then wildcard_spec (lower k) (lower (filename photo))
            else (\<exists>pre post. lower (filename photo) = pre @ lower k @ post))"
  using assms
proof (induction kws)
  case Nil
  then show ?case by simp
next
  case (Cons k kws)
  from Cons.prems have "\<forall>k\<in>set kws. CHR ''*'' \<in> set k \<longrightarrow>
             plain_keyword k \<and> CHR 0x0A \<notin> set (filename photo)" by simp
  from Cons.IH [OF this] have IH: "match_filename re_search photo kws =
     Inr (\<exists>k\<in>set kws.
            if CHR ''*'' \<in> set k then wildcard_spec (lower k) (lower (filename photo))
            else (\<exists>pre post. lower (filename photo) = pre @ lower k @ post))" .
  show ?case
  proof (cases "CHR ''*'' \<in> set k")
    case True
    with Cons.prems have "plain_keyword k" and "CHR 0x0A \<notin> set (filename photo)"
      by simp_all
    from re_search_plain [OF this] True IH show ?thesis by simp
  next
    case False
    with IH show ?thesis by (simp add: str_contains_iff)
  qed
qed

lemma match_folder_spec:
  assumes "\<forall>k\<in>set kws. CHR ''*'' \<in> set k \<longrightarrow>
             plain_keyword k \<and> CHR 0x0A \<notin> set (folder_name photo)"
  shows "match_folder re_search photo kws =
     Inr (\<exists>k\<in>set kws.
            if CHR ''*'' \<in> set k then wildcard_spec (lower k) (lower (folder_name photo))
            else (\<exists>pre post. lower (folder_name photo) = pre @ lower k @ post))"
  using assms
proof (induction kws)
  case Nil
  then show ?case by simp
next
  case (Cons k kws)
  from Cons.prems have "\<forall>k\<in>set kws. CHR ''*'' \<in> set k \<longrightarrow>
             plain_keyword k \<and> CHR 0x0A \<notin> set (folder_name photo)" by simp
  from Cons.IH [OF this] have IH: "match_folder re_search photo kws =
     Inr (\<exists>k\<in>set kws.
            if CHR ''*'' \<in> set k then wildcard_spec (lower k) (lower (folder_name photo))
            else (\<exists>pre post. lower (folder_name photo) = pre @ lower k @ post))" .
  show ?case
  proof (cases "CHR ''*'' \<in> set k")
    case True
    with Cons.prems have "plain_keyword k" and "CHR 0x0A \<notin> set (folder_name photo)"
      by simp_all
    from re_search_plain [OF this] True IH show ?thesis by simp
  next
    case False
    with IH show ?thesis by (simp add: str_contains_iff)
  qed
qed

section \<open>Facts about the parser's regular expressions\<close>

lemma consume_rest: "snd (consume n p s) = drop n s"
  by (induction n p s rule: consume.induct) simp_all

lemma advance_groups [simp]: "groups_of (advance n cfg) = groups_of cfg"
  by (cases cfg) (simp add: advance_def groups_of_def split: prod.splits)

lemma advance_rest [simp]: "rest_of (advance n cfg) = drop n (rest_of cfg)"
proof (cases cfg)
  case (fields p s gs)
  obtain p' s' where c: "consume n p s = (p', s')" by (cases "consume n p s")
  with consume_rest [of n p s] have "s' = drop n s" by simp
  with c fields show ?thesis by (simp add: advance_def rest_of_def)
qed

lemma advance_eq:
  assumes "advance n (p, s, gs) = (p', s', gs')"
  shows "gs' = gs" and "s' = drop n s"
proof -
  obtain q t where c: "consume n p s = (q, t)" by (cases "consume n p s")
  with consume_rest [of n p s] have "t = drop n s" by simp
  with c assms show "gs' = gs" and "s' = drop n s" by (simp_all add: advance_def)
qed

lemma bound_groups: "c' \<in> set (rx_match Bound c) \<Longrightarrow> c' = c"
  by (cases c) (auto split: if_splits)

lemma plus_groups: "c' \<in> set (rx_match (Plus k) c) \<Longrightarrow> groups_of c' = groups_of c"
  by (cases c) auto

lemma text_groups: "c' \<in> set (rx_match (Text l) c) \<Longrightarrow> groups_of c' = groups_of c"
  by (cases c) (auto split: if_splits)

lemma startswith_ci_take:
  "startswith_ci s l \<Longrightarrow> length l \<le> length s \<and> lower (take (length l) s) = lower l"
  by (induction s l rule: startswith_ci.induct) (auto simp: lower_def split: if_splits)

lemma alts_match:
  "c' \<in> set (rx_match (alts ls) c) \<Longrightarrow>
     \<exists>l\<in>set ls. startswith_ci (rest_of c) l \<and> c' = advance (length l) c"
proof (induction ls)
  case Nil
  then show ?case by simp
next
  case (Cons l ls)
  then show ?case
    by (cases c) (auto simp: rest_of_def split: if_splits)
qed

lemma group_alts:
  assumes "c' \<in> set (rx_match (Group (alts ls)) c)"
  shows "\<exists>g. groups_of c' = groups_of c @ [g] \<and> lower g \<in> lower ` set ls"
proof -
  obtain p s gs where c: "c = (p, s, gs)" by (cases c)
  with assms obtain p' s' gs' where
    in_alts: "(p', s', gs') \<in> set (rx_match (alts ls) (p, s, gs))" and
    c': "c' = (p', s', gs' @ [take (length s - length s') s])"
    by auto
  from alts_match [OF in_alts] obtain l where
    l: "l \<in> set ls" "startswith_ci s l" and
    adv: "advance (length l) (p, s, gs) = (p', s', gs')"
    by (auto simp: rest_of_def)
  note gs' = advance_eq(1) [OF adv] and s' = advance_eq(2) [OF adv]
  from startswith_ci_take [OF l(2)] have len: "length l \<le> length s"
    and low: "lower (take (length l) s) = lower l" by simp_all
  from s' len have "take (length s - length s') s = take (length l) s" by simp
  with low show ?thesis using c c' gs' l(1)
    by (auto simp: groups_of_def)
qed

lemma group_rep:
  assumes "c' \<in> set (rx_match (Group (Rep n k)) c)"
  shows "\<exists>g. groups_of c' = groups_of c @ [g] \<and> length g = n \<and> (\<forall>x\<in>set g. in_cls k x)"
proof -
  obtain p s gs where c: "c = (p, s, gs)" by (cases c)
  obtain p' s' gs' where adv: "advance n (p, s, gs) = (p', s', gs')"
    by (cases "advance n (p, s, gs)")
  note gs' = advance_eq(1) [OF adv] and s' = advance_eq(2) [OF adv]
  from assms c adv have ok: "n \<le> length s" "\<forall>x\<in>set (take n s). in_cls k x"
    and c': "c' = (p', s', gs' @ [take (length s - length s') s])"
    by (auto split: if_splits)
  from s' ok(1) have "take (length s - length s') s = take n s" by simp
  with c c' gs' ok show ?thesis by (auto simp: groups_of_def)
qed

lemma in_seq:
  "c'' \<in> set (rx_match (Seq r1 r2) c) \<longleftrightarrow> (\<exists>c'\<in>set (rx_match r1 c). c'' \<in> set (rx_match r2 c'))"
  by auto

lemma match_at_SomeD:
  "match_at r p s = Some (n, gs) \<Longrightarrow> \<exists>c'\<in>set (rx_match r (p, s, [])). groups_of c' = gs"
  by (auto simp: match_at_def groups_of_def split: list.splits)

lemma finditer_from_all:
  assumes "\<And>p s n gs. match_at r p s = Some (n, gs) \<Longrightarrow> P gs"
  shows "\<forall>gs\<in>set (finditer_from r k p s). P gs"
proof (induction s arbitrary: k p)
  case Nil
  then show ?case by simp
next
  case (Cons c cs)
  show ?case
  proof (cases k)
    case (Suc k')
    with Cons show ?thesis by simp
  next
    case 0
    show ?thesis
    proof (cases "match_at r p (c # cs)")
      case None
      with 0 Cons show ?thesis by simp
    next
      case (Some a)
      obtain n gs where a: "a = (n, gs)" by (cases a)
      with Some have "P gs" by (simp add: assms)
      with 0 Some a Cons show ?thesis by simp
    qed
  qed
qed

lemma finditer_all:
  assumes "\<And>p s n gs. match_at r p s = Some (n, gs) \<Longrightarrow> P gs"
  shows "\<forall>gs\<in>set (finditer r s). P gs"
  unfolding finditer_def by (rule finditer_from_all) (rule assms)

lemma lower_month_keys: "lower ` set (map fst MONTH_NAMES) = set (map fst MONTH_NAMES)"
  by code_simp

lemma pattern1_groups:
  assumes "match_at pattern1 p s = Some (n, gs)"
  shows "month_groups gs"
proof -
  from match_at_SomeD [OF assms] obtain c5 where
    c5: "c5 \<in> set (rx_match pattern1 (p, s, []))" and g: "groups_of c5 = gs" by blast
  from c5 obtain c1 c2 c3 c4 where
    c1: "c1 \<in> set (rx_match Bound (p, s, []))" and
    c2: "c2 \<in> set (rx_match (Group (alts (map fst MONTH_NAMES))) c1)" and
    c3: "c3 \<in> set (rx_match (Plus CSpace) c2)" and
    c4: "c4 \<in> set (rx_match (Group (Rep 4 CDigit)) c3)" and
    c5': "c5 \<in> set (rx_match Bound c4)"
    unfolding pattern1_def seqs.simps in_seq by blast
  from bound_groups [OF c1] have "groups_of c1 = []" by (simp add: groups_of_def)
  with group_alts [OF c2] obtain g1 where
    g1: "groups_of c2 = [g1]" "lower g1 \<in> set (map fst MONTH_NAMES)"
    using lower_month_keys by auto
  from plus_groups [OF c3] g1 have "groups_of c3 = [g1]" by simp
  with group_rep [OF c4] obtain g2 where
    g2: "groups_of c4 = [g1, g2]" "length g2 = 4" "\<forall>x\<in>set g2. is_digit x"
    by auto
  from bound_groups [OF c5'] g2 g have "gs = [g1, g2]" by simp
  with g1 g2 show ?thesis by (auto simp: month_groups_def)
qed

lemma pattern2_groups:
  assumes "match_at pattern2 p s = Some (n, gs)"
  shows "digit_groups [4, 2] gs"
proof -
  from match_at_SomeD [OF assms] obtain c5 where
    c5: "c5 \<in> set (rx_match pattern2 (p, s, []))" and g: "groups_of c5 = gs" by blast
  from c5 obtain c1 c2 c3 c4 where
    c1: "c1 \<in> set (rx_match Bound (p, s, []))" and
    c2: "c2 \<in> set (rx_match (Group (Rep 4 CDigit)) c1)" and
    c3: "c3 \<in> set (rx_match (Text ''-'') c2)" and
    c4: "c4 \<in> set (rx_match (Group (Rep 2 CDigit)) c3)" and
    c5': "c5 \<in> set (rx_match Bound c4)"
    unfolding pattern2_def seqs.simps in_seq by blast
  from bound_groups [OF c1] have "groups_of c1 = []" by (simp add: groups_of_def)
  with group_rep [OF c2] obtain g1 where
    g1: "groups_of c2 = [g1]" "length g1 = 4" "\<forall>x\<in>set g1. is_digit x"
    by auto
  from text_groups [OF c3] g1 have "groups_of c3 = [g1]" by simp
  with group_rep [OF c4] obtain g2 where
    g2: "groups_of c4 = [g1, g2]" "length g2 = 2" "\<forall>x\<in>set g2. is_digit x"
    by auto
  from bound_groups [OF c5'] g2 g have "gs = [g1, g2]" by simp
  with g1 g2 show ?thesis by (auto simp: digit_groups_def)
qed

lemma pattern3_groups:
  assumes "match_at pattern3 p s = Some (n, gs)"
  shows "digit_groups [4] gs"
proof -
  from match_at_SomeD [OF assms] obtain c3 where
    c3: "c3 \<in> set (rx_match pattern3 (p, s, []))" and g: "groups_of c3 = gs" by blast
  from c3 obtain c1 c2 where
    c1: "c1 \<in> set (rx_match Bound (p, s, []))" and
    c2: "c2 \<in> set (rx_match (Group (Rep 4 CDigit)) c1)" and
    c3': "c3 \<in> set (rx_match Bound c2)"
    unfolding pattern3_def seqs.simps in_seq by blast
  from bound_groups [OF c1] have "groups_of c1 = []" by (simp add: groups_of_def)
  with group_rep [OF c2] obtain g1 where
    g1: "groups_of c2 = [g1]" "length g1 = 4" "\<forall>x\<in>set g1. is_digit x"
    by auto
  from bound_groups [OF c3'] g1 g have "gs = [g1]" by simp
  with g1 show ?thesis by (auto simp: digit_groups_def)
qed

lemma step1_ok:
  assumes "month_groups m"
  shows "step1 acc m =
     Inr (acc @ [DateFilter_of (Some (digits_value (m ! 1) 0)) (map_of MONTH_NAMES (lower (m ! 0)))])"
    and "\<exists>mo. map_of MONTH_NAMES (lower (m ! 0)) = Some mo"
proof -
  from assms obtain g1 g2 where
    m: "m = [g1, g2]" and k: "lower g1 \<in> set (map fst MONTH_NAMES)" and
    d: "length g2 = 4" "\<forall>x\<in>set g2. is_digit x"
    by (auto simp: month_groups_def)
  from k obtain mo where mo: "map_of MONTH_NAMES (lower g1) = Some mo"
    by (metis domD dom_map_of_conv_image_fst list.set_map)
  from d have "g2 \<noteq> []" by auto
  with d have "py_int g2 = Inr (digits_value g2 0)" by (simp add: py_int_def)
  with m mo show "step1 acc m =
     Inr (acc @ [DateFilter_of (Some (digits_value (m ! 1) 0)) (map_of MONTH_NAMES (lower (m ! 0)))])"
    by (simp add: step1_def match_group_def)
  from m mo show "\<exists>mo. map_of MONTH_NAMES (lower (m ! 0)) = Some mo" by simp
qed

lemma digit_groups_py_int:
  "digit_groups ns m \<Longrightarrow> i < length ns \<Longrightarrow> 0 < ns ! i \<Longrightarrow>
   py_int (m ! i) = Inr (digits_value (m ! i) 0) \<and> match_group m (Suc i) = Inr (m ! i)"
proof -
  assume dg: "digit_groups ns m" and i: "i < length ns" and pos: "0 < ns ! i"
  from dg have len: "length m = length ns" by (metis digit_groups_def length_map)
  with i have mem: "m ! i \<in> set m" by simp
  from dg i len have "length (m ! i) = ns ! i"
    by (metis digit_groups_def nth_map)
  with pos have "m ! i \<noteq> []" by auto
  moreover from dg mem have "\<forall>x\<in>set (m ! i). is_digit x" by (simp add: digit_groups_def)
  ultimately show ?thesis using i len by (simp add: py_int_def match_group_def)
qed

lemma step2_ok:
  assumes "digit_groups [4, 2] m"
  shows "step2 acc m =
     Inr (if 1 \<le> digits_value (m ! 1) 0 \<and> digits_value (m ! 1) 0 \<le> 12
          then acc @ [DateFilter_of (Some (digits_value (m ! 0) 0)) (Some (digits_value (m ! 1) 0))]
          else acc)"
  using digit_groups_py_int [OF assms, of 0] digit_groups_py_int [OF assms, of 1]
  by (simp add: step2_def numeral_2_eq_2)

lemma step3_ok:
  assumes "digit_groups [4] m"
  shows "step3 acc m =
     Inr (if 2000 \<le> digits_value (m ! 0) 0 \<and> digits_value (m ! 0) 0 \<le> 2100
          then acc @ [DateFilter_of (Some (digits_value (m ! 0) 0)) None]
          else acc)"
  using digit_groups_py_int [OF assms, of 0]
  by (simp add: step3_def)

lemma for_each_map:
  "(\<forall>x\<in>set xs. \<forall>acc. f acc x = Inr (acc @ (if keep x then [g x] else []))) \<Longrightarrow>
   for_each f acc xs = Inr (acc @ map g (filter keep xs))"
  by (induction xs arbitrary: acc) auto

section \<open>Facts about the parser\<close>

lemma loop1:
  "for_each step1 [] (finditer pattern1 text) = Inr (month_year_filters text)"
proof -
  have "\<forall>m\<in>set (finditer pattern1 text). month_groups m"
    by (rule finditer_all) (rule pattern1_groups)
  then have "\<forall>m\<in>set (finditer pattern1 text). \<forall>acc. step1 acc m =
      Inr (acc @ (if True then
        [DateFilter_of (Some (digits_value (m ! 1) 0)) (map_of MONTH_NAMES (lower (m ! 0)))]
        else []))"
    by (simp add: step1_ok(1))
  from for_each_map [where keep = "\<lambda>m. True", OF this, of "[]"]
  show ?thesis by (simp add: month_year_filters_def)
qed

lemma loop2:
  "for_each step2 acc (finditer pattern2 text) = Inr (acc @ year_month_filters text)"
proof -
  have "\<forall>m\<in>set (finditer pattern2 text). digit_groups [4, 2] m"
    by (rule finditer_all) (rule pattern2_groups)
  then have "\<forall>m\<in>set (finditer pattern2 text). \<forall>acc. step2 acc m =
      Inr (acc @ (if 1 \<le> digits_value (m ! 1) 0 \<and> digits_value (m ! 1) 0 \<le> 12 then
        [DateFilter_of (Some (digits_value (m ! 0) 0)) (Some (digits_value (m ! 1) 0))]
        else []))"
    by (simp add: step2_ok)
  from for_each_map [OF this, of acc]
  show ?thesis by (simp add: year_month_filters_def)
qed

lemma loop3:
  "for_each step3 acc (finditer pattern3 text) = Inr (acc @ bare_year_filters text)"
proof -
  have "\<forall>m\<in>set (finditer pattern3 text). digit_groups [4] m"
    by (rule finditer_all) (rule pattern3_groups)
  then have "\<forall>m\<in>set (finditer pattern3 text). \<forall>acc. step3 acc m =
      Inr (acc @ (if 2000 \<le> digits_value (m ! 0) 0 \<and> digits_value (m ! 0) 0 \<le> 2100 then
        [DateFilter_of (Some (digits_value (m ! 0) 0)) None]
        else []))"
    by (simp add: step3_ok)
  from for_each_map [OF this, of acc]
  show ?thesis by (simp add: bare_year_filters_def)
qed

lemma extract_dates_eq:
  "ascii prompt \<Longrightarrow>
   extract_dates prompt =
     Inr (if month_year_filters (lower prompt) @ year_month_filters (lower prompt) \<noteq> []
          then month_year_filters (lower prompt) @ year_month_filters (lower prompt)
          else bare_year_filters (lower prompt))"
  by (simp add: extract_dates_def Let_def loop1 loop2 loop3)





text \<open>Each loop of \<^verbatim>\<open>extract_dates\<close> only adds filters with a year, whatever the
  matches are.\<close>

lemma for_each_invariant:
  assumes "\<And>st x st'. f st x = Inr st' \<Longrightarrow> P st \<Longrightarrow> P st'"
  shows "for_each f st xs = Inr st' \<Longrightarrow> P st \<Longrightarrow> P st'"
proof (induction xs arbitrary: st)
  case Nil
  then show ?case by simp
next
  case (Cons x xs)
  from Cons.prems(1) obtain st1 where
    one: "f st x = Inr st1" and rest: "for_each f st1 xs = Inr st'"
    by (auto split: sum.splits)
  from assms [OF one Cons.prems(2)] have "P st1" .
  with Cons.IH [OF rest] show ?case .
qed

lemma step1_year: "step1 acc m = Inr acc' \<Longrightarrow> all_have_year acc \<Longrightarrow> all_have_year acc'"
  by (auto simp: step1_def all_have_year_def DateFilter_of_def Let_def
      split: sum.splits option.splits)

lemma step2_year: "step2 acc m = Inr acc' \<Longrightarrow> all_have_year acc \<Longrightarrow> all_have_year acc'"
  by (auto simp: step2_def all_have_year_def DateFilter_of_def
      split: sum.splits if_splits)

lemma step3_year: "step3 acc m = Inr acc' \<Longrightarrow> all_have_year acc \<Longrightarrow> all_have_year acc'"
  by (auto simp: step3_def all_have_year_def DateFilter_of_def
      split: sum.splits if_splits)

lemma loop1_year:
  assumes "for_each step1 st xs = Inr st'" and "all_have_year st"
  shows "all_have_year st'"
proof (rule for_each_invariant [where f = step1 and P = all_have_year, OF _ assms])
  fix a x b assume "step1 a x = Inr b" "all_have_year a"
  then show "all_have_year b" by (rule step1_year)
qed

lemma loop2_year:
  assumes "for_each step2 st xs = Inr st'" and "all_have_year st"
  shows "all_have_year st'"
proof (rule for_each_invariant [where f = step2 and P = all_have_year, OF _ assms])
  fix a x b assume "step2 a x = Inr b" "all_have_year a"
  then show "all_have_year b" by (rule step2_year)
qed

lemma loop3_year:
  assumes "for_each step3 st xs = Inr st'" and "all_have_year st"
  shows "all_have_year st'"
proof (rule for_each_invariant [where f = step3 and P = all_have_year, OF _ assms])
  fix a x b assume "step3 a x = Inr b" "all_have_year a"
  then show "all_have_year b" by (rule step3_year)
qed

lemma extract_dates_year:
  assumes "extract_dates prompt = Inr dates"
  shows "all_have_year dates"
proof -
  let ?t = "lower prompt"
  from assms obtain d1 d2 where
    l1: "for_each step1 [] (finditer pattern1 ?t) = Inr d1" and
    l2: "for_each step2 d1 (finditer pattern2 ?t) = Inr d2" and
    l3: "if d2 = [] then for_each step3 d2 (finditer pattern3 ?t) = Inr dates else dates = d2"
    by (auto simp: extract_dates_def Let_def split: sum.splits if_splits)
  have "all_have_year []" by (simp add: all_have_year_def)
  with l1 have "all_have_year d1" by (rule loop1_year)
  with l2 have y2: "all_have_year d2" by (rule loop2_year)
  show ?thesis
  proof (cases "d2 = []")
    case True
    with l3 have "for_each step3 d2 (finditer pattern3 ?t) = Inr dates" by simp
    then show ?thesis using y2 by (rule loop3_year)
  next
    case False
    with l3 y2 show ?thesis by simp
  qed
qed

lemma parse_eq:
  "extract_dates prompt = Inr dates \<Longrightarrow>
   parse prompt =
     Inr (map (\<lambda>n. \<lparr>name = n, keywords_list = extract_keywords n,
                   date_filter = (case dates of [] \<Rightarrow> None | d # _ \<Rightarrow> Some d),
                   original_prompt = prompt\<rparr>) (extract_album_names prompt))"
  by (simp add: parse_def)

lemma parse_raises: "extract_dates prompt = Inl e \<Longrightarrow> parse prompt = Inl e"
  by (simp add: parse_def)

lemma parse_InrD:
  "parse prompt = Inr specs \<Longrightarrow> \<exists>dates. extract_dates prompt = Inr dates"
  by (cases "extract_dates prompt") (simp_all add: parse_def)

text \<open>On ASCII prompts the parser raises nothing.\<close>

lemma extract_dates_returns: "ascii prompt \<Longrightarrow> \<exists>dates. extract_dates prompt = Inr dates"
  by (simp add: extract_dates_eq)

lemma parse_returns: "ascii prompt \<Longrightarrow> \<exists>specs. parse prompt = Inr specs"
  using extract_dates_returns [of prompt] by (auto simp: parse_def)

lemma parse_empty:
  "ascii prompt \<Longrightarrow> extract_album_names prompt = [] \<Longrightarrow> parse prompt = Inr []"
  using extract_dates_returns [of prompt] by (auto simp: parse_def)

section \<open>Properties of the pattern matcher\<close>

text \<open>
  C1, partition totality, as amended. \<^verbatim>\<open>match\<close> returns a result whenever the search
  raises for none of the wildcard keywords of the specs; it does not return for every list
  of specs. In every result it returns, the sizes of the buckets and of the unmatched list
  add up to the number of input photos, the buckets and the unmatched list together hold
  exactly the input photos (as a multiset: each occurrence once), the bucket names are
  distinct, and no photo is in a bucket and unmatched, or in two buckets.
\<close>

theorem match_partition:
  "((\<forall>s\<in>set album_specs. \<forall>k\<in>set (keywords_list s). CHR ''*'' \<in> set k \<longrightarrow>
        (\<forall>t. \<exists>b. rx (CHR ''^'' # replace_star k) t = Inr b)) \<longrightarrow>
      (\<exists>r. match rx album_specs photos = Inr r)) \<and>
   (\<forall>r. match rx album_specs photos = Inr r \<longrightarrow>
      sum_list (map (\<lambda>(k, ps). length ps) (matched r)) + length (unmatched r) = length photos \<and>
      mset (concat (map snd (matched r))) + mset (unmatched r) = mset photos \<and>
      distinct (map fst (matched r)) \<and>
      (\<forall>(k, ps)\<in>set (matched r). set ps \<inter> set (unmatched r) = {}) \<and>
      (\<forall>(k, ps)\<in>set (matched r). \<forall>(k', ps')\<in>set (matched r).
          k \<noteq> k' \<longrightarrow> set ps \<inter> set ps' = {}))"
proof (intro conjI impI allI)
  assume "\<forall>s\<in>set album_specs. \<forall>k\<in>set (keywords_list s). CHR ''*'' \<in> set k \<longrightarrow>
        (\<forall>t. \<exists>b. rx (CHR ''^'' # replace_star k) t = Inr b)"
  then show "\<exists>r. match rx album_specs photos = Inr r" by (rule match_returns)
next
  fix r assume r: "match rx album_specs photos = Inr r"
  from match_result(5) [OF r]
  show "sum_list (map (\<lambda>(k, ps). length ps) (matched r)) + length (unmatched r) = length photos"
    by (simp add: bucket_total_def)
  from match_result(6) [OF r]
  show "mset (concat (map snd (matched r))) + mset (unmatched r) = mset photos"
    by (simp add: bucket_photos_def)
  show "distinct (map fst (matched r))" by (rule match_result(2) [OF r])
  show "\<forall>(k, ps)\<in>set (matched r). set ps \<inter> set (unmatched r) = {}"
  proof (clarify)
    fix k ps assume "(k, ps) \<in> set (matched r)"
    then have "ps = filter (assigned rx album_specs k) photos" by (rule match_result(4) [OF r])
    then show "set ps \<inter> set (unmatched r) = {}"
      using assigned_not_left_over by (auto simp: match_result(1) [OF r])
  qed
  show "\<forall>(k, ps)\<in>set (matched r). \<forall>(k', ps')\<in>set (matched r).
          k \<noteq> k' \<longrightarrow> set ps \<inter> set ps' = {}"
  proof (clarify)
    fix k ps k' ps'
    assume "(k, ps) \<in> set (matched r)" "(k', ps') \<in> set (matched r)" "k \<noteq> k'"
    with match_result(4) [OF r] have
      "ps = filter (assigned rx album_specs k) photos"
      "ps' = filter (assigned rx album_specs k') photos" by blast+
    with \<open>k \<noteq> k'\<close> show "set ps \<inter> set ps' = {}"
      using assigned_unique by auto
  qed
qed

text \<open>An instance: one wildcard spec and two photos.\<close>

theorem match_partition_witness:
  "\<exists>r. match re_search [album ''Ncc'' [''ncc*'']]
          [photo_named ''NCC_parade_001.jpg'', photo_named ''beach.jpg''] = Inr r \<and>
       sum_list (map (\<lambda>(k, ps). length ps) (matched r)) + length (unmatched r) = 2"
proof -
  have h: "\<forall>s\<in>set [album ''Ncc'' [''ncc*'']]. \<forall>k\<in>set (keywords_list s). CHR ''*'' \<in> set k \<longrightarrow>
        (\<forall>t. \<exists>b. re_search (CHR ''^'' # replace_star k) t = Inr b)"
    by (simp add: album_def re_search_def re_special_def)
  from match_partition [of "[album ''Ncc'' [''ncc*'']]" re_search
      "[photo_named ''NCC_parade_001.jpg'', photo_named ''beach.jpg'']"] h
  show ?thesis by auto
qed

text \<open>The claim as stated, for every list of specs, fails: the keyword \<^verbatim>\<open>+*\<close> yields
  the pattern \<^verbatim>\<open>^+.*\<close>, which \<^verbatim>\<open>re\<close> refuses to compile, and \<^verbatim>\<open>match\<close> raises
  instead of returning a partition.\<close>

theorem match_partition_counterexample:
  "match re_search [album ''Plus'' [''+*'']] [photo_named ''beach.jpg''] = Inl ReError"
  by (simp add: match_def matches_spec_def keyword_match_def re_search_def fixture_defs)

text \<open>
  C2, date-keyword precedence. For a spec with a date filter, \<^verbatim>\<open>_matches_spec\<close> is true
  exactly when the keyword match is true, whatever the date: a keyword match with a date
  that fails the filter still matches, and a date that satisfies the filter without a
  keyword match does not.
\<close>

theorem date_keyword_precedence:
  "date_filter spec = Some df \<Longrightarrow>
     ((matches_spec rx photo spec = Inr True) = (keyword_match rx photo spec = Inr True)) \<and>
     (keyword_match rx photo spec = Inr True \<and> \<not> match_date photo df \<longrightarrow>
        matches_spec rx photo spec = Inr True) \<and>
     (match_date photo df \<and> keyword_match rx photo spec = Inr False \<longrightarrow>
        matches_spec rx photo spec = Inr False)"
  by (cases "keyword_match rx photo spec") (auto simp: matches_spec_def Let_def)

text \<open>The example of the specification: keyword "vacation" with the filter year 2024;
  "vacation.jpg" of 2023 matches, "random.jpg" of 2024 does not.\<close>

theorem date_keyword_precedence_witness:
  "date_filter vacation_2024 = Some \<lparr>year = Some 2024, month = None, start_date = None, end_date = None\<rparr> \<and>
   \<not> match_date (photo_created ''vacation.jpg'' (day 2023 7 1))
       \<lparr>year = Some 2024, month = None, start_date = None, end_date = None\<rparr> \<and>
   matches_spec re_search (photo_created ''vacation.jpg'' (day 2023 7 1)) vacation_2024 = Inr True \<and>
   match_date (photo_created ''random.jpg'' (day 2024 7 1))
       \<lparr>year = Some 2024, month = None, start_date = None, end_date = None\<rparr> \<and>
   matches_spec re_search (photo_created ''random.jpg'' (day 2024 7 1)) vacation_2024 = Inr False"
proof -
  let ?df = "\<lparr>year = Some 2024, month = None, start_date = None, end_date = None\<rparr>"
  have h: "date_filter vacation_2024 = Some ?df"
    by (simp add: vacation_2024_def album_def)
  have k1: "keyword_match re_search (photo_created ''vacation.jpg'' (day 2023 7 1)) vacation_2024 = Inr True"
    by (simp add: keyword_match_def vacation_2024_def fixture_defs lower_def lower_char_def is_upper_def)
  have k2: "keyword_match re_search (photo_created ''random.jpg'' (day 2024 7 1)) vacation_2024 = Inr False"
    by (simp add: keyword_match_def vacation_2024_def fixture_defs lower_def lower_char_def is_upper_def)
  have d1: "\<not> match_date (photo_created ''vacation.jpg'' (day 2023 7 1)) ?df"
    by (simp add: match_date_def preferred_date_def fixture_defs)
  have d2: "match_date (photo_created ''random.jpg'' (day 2024 7 1)) ?df"
    by (simp add: match_date_def preferred_date_def fixture_defs)
  from date_keyword_precedence [OF h, of re_search "photo_created ''vacation.jpg'' (day 2023 7 1)"]
       date_keyword_precedence [OF h, of re_search "photo_created ''random.jpg'' (day 2024 7 1)"]
       h k1 k2 d1 d2
  show ?thesis by blast
qed

text \<open>
  C3, first-match priority, as amended. In every result of \<^verbatim>\<open>match\<close>, a photo whose
  first matching spec is at position \<open>i\<close> and has a non-empty name is in the bucket named
  by that spec, is not unmatched, and is in no bucket of another name, whichever later
  specs it matches as well; a photo that matches no spec is unmatched and in no bucket.
\<close>

theorem first_match_priority:
  assumes "match rx specs photos = Inr r" and "p \<in> set photos"
  shows "(\<forall>i<length specs.
            matches_spec rx p (specs ! i) = Inr True \<and>
            (\<forall>j<i. matches_spec rx p (specs ! j) = Inr False) \<and> name (specs ! i) \<noteq> [] \<longrightarrow>
            (\<exists>ps. (name (specs ! i), ps) \<in> set (matched r) \<and> p \<in> set ps) \<and>
            p \<notin> set (unmatched r) \<and>
            (\<forall>(k, ps)\<in>set (matched r). k \<noteq> name (specs ! i) \<longrightarrow> p \<notin> set ps)) \<and>
         ((\<forall>s\<in>set specs. matches_spec rx p s = Inr False) \<longrightarrow>
            p \<in> set (unmatched r) \<and> (\<forall>(k, ps)\<in>set (matched r). p \<notin> set ps))"
proof -
  have first: "(\<exists>ps. (name (specs ! i), ps) \<in> set (matched r) \<and> p \<in> set ps) \<and>
            p \<notin> set (unmatched r) \<and>
            (\<forall>(k, ps)\<in>set (matched r). k \<noteq> name (specs ! i) \<longrightarrow> p \<notin> set ps)"
    if i: "i < length specs"
      and m: "matches_spec rx p (specs ! i) = Inr True \<and>
            (\<forall>j<i. matches_spec rx p (specs ! j) = Inr False) \<and> name (specs ! i) \<noteq> []"
    for i
  proof -
    from i m have "find_album rx specs p = Inr (Some (name (specs ! i)))"
      by (simp add: find_album_first)
    with m have "assigned rx specs (name (specs ! i)) p" by (simp add: assigned_def)
    from match_places(1) [OF assms this] show ?thesis .
  qed
  have none: "p \<in> set (unmatched r) \<and> (\<forall>(k, ps)\<in>set (matched r). p \<notin> set ps)"
    if "\<forall>s\<in>set specs. matches_spec rx p s = Inr False"
  proof -
    from that have "find_album rx specs p = Inr None" by (rule find_album_none)
    then have "left_over rx specs p" by (simp add: left_over_def)
    from match_places(2) [OF assms this] show ?thesis .
  qed
  from first none show ?thesis by blast
qed

text \<open>The specification's test: the specs "Fest" and "College Fest", and a photo
  that contains both.\<close>

theorem first_match_priority_witness:
  "\<exists>r. match re_search [album ''Fest'' [''fest''], album ''College Fest'' [''college fest'', ''fest'']]
          [photo_named ''college fest 1.jpg'', photo_named ''beach.jpg''] = Inr r \<and>
       (\<exists>ps. (''Fest'', ps) \<in> set (matched r) \<and> photo_named ''college fest 1.jpg'' \<in> set ps) \<and>
       photo_named ''college fest 1.jpg'' \<notin> set (unmatched r) \<and>
       (\<forall>(k, ps)\<in>set (matched r). k \<noteq> ''Fest'' \<longrightarrow> photo_named ''college fest 1.jpg'' \<notin> set ps)"
proof -
  let ?specs = "[album ''Fest'' [''fest''], album ''College Fest'' [''college fest'', ''fest'']]"
  let ?p = "photo_named ''college fest 1.jpg''"
  let ?photos = "[?p, photo_named ''beach.jpg'']"
  have "\<forall>s\<in>set ?specs. \<forall>k\<in>set (keywords_list s). CHR ''*'' \<in> set k \<longrightarrow>
        (\<forall>t. \<exists>b. re_search (CHR ''^'' # replace_star k) t = Inr b)"
    by (simp add: album_def)
  then obtain r where r: "match re_search ?specs ?photos = Inr r"
    using match_returns by blast
  have p: "?p \<in> set ?photos" by simp
  have i: "0 < length ?specs" by simp
  have m: "matches_spec re_search ?p (?specs ! 0) = Inr True"
    by code_simp
  have n: "name (?specs ! 0) = ''Fest''" by (simp add: album_def)
  from first_match_priority [OF r p, THEN conjunct1, rule_format, of 0] i m n
  have "(\<exists>ps. (''Fest'', ps) \<in> set (matched r) \<and> ?p \<in> set ps) \<and>
       ?p \<notin> set (unmatched r) \<and>
       (\<forall>(k, ps)\<in>set (matched r). k \<noteq> ''Fest'' \<longrightarrow> ?p \<notin> set ps)"
    by (auto simp: album_def)
  with r show ?thesis by blast
qed

text \<open>The claim as stated fails when the spec at position \<open>i\<close> has the empty name: the
  photo matches the specs at positions 0 and 1 and ends up unmatched, with the bucket of
  position 0 empty.\<close>

theorem first_match_priority_counterexample:
  "matches_spec re_search (photo_named ''fest_01.jpg'') (album [] [''fest'']) = Inr True \<and>
   matches_spec re_search (photo_named ''fest_01.jpg'') (album ''College Fest'' [''fest'']) = Inr True \<and>
   match re_search [album [] [''fest''], album ''College Fest'' [''fest'']] [photo_named ''fest_01.jpg'']
     = Inr \<lparr>matched = [([], []), (''College Fest'', [])],
            unmatched = [photo_named ''fest_01.jpg''],
            match_stats = [([], 0), (''College Fest'', 0)]\<rparr>"
  by code_simp

text \<open>
  C4, wildcard keyword semantics, as amended. For ASCII keywords and candidates,
  \<^verbatim>\<open>match_filename\<close> and \<^verbatim>\<open>match_folder\<close> return true exactly when some keyword with
  \<^verbatim>\<open>*\<close> matches the candidate in the wildcard reading, case-insensitively and anchored
  at the start, or some keyword without \<^verbatim>\<open>*\<close> is a case-insensitive substring of the
  candidate; this is for keywords with \<^verbatim>\<open>*\<close> whose other characters are ordinary for
  \<^verbatim>\<open>re\<close>, applied to a candidate without line feed. Keywords without \<^verbatim>\<open>*\<close> are
  under no condition.
\<close>

theorem wildcard_semantics:
  assumes "ascii (filename photo)" and "ascii (folder_name photo)"
    and "\<forall>k\<in>set kws. ascii k"
    and "\<forall>k\<in>set kws. CHR ''*'' \<in> set k \<longrightarrow> (\<forall>c\<in>set k. c \<noteq> CHR ''*'' \<longrightarrow> \<not> re_special c)"
  shows "((\<forall>k\<in>set kws. CHR ''*'' \<in> set k \<longrightarrow> CHR 0x0A \<notin> set (filename photo)) \<longrightarrow>
          match_filename re_search photo kws =
            Inr (\<exists>k\<in>set kws.
                   if CHR ''*'' \<in> set k then wildcard_spec (lower k) (lower (filename photo))
                   else (\<exists>pre post. lower (filename photo) = pre @ lower k @ post))) \<and>
         ((\<forall>k\<in>set kws. CHR ''*'' \<in> set k \<longrightarrow> CHR 0x0A \<notin> set (folder_name photo)) \<longrightarrow>
          match_folder re_search photo kws =
            Inr (\<exists>k\<in>set kws.
                   if CHR ''*'' \<in> set k then wildcard_spec (lower k) (lower (folder_name photo))
                   else (\<exists>pre post. lower (folder_name photo) = pre @ lower k @ post)))"
proof -
  from assms(4) have plain: "\<forall>k\<in>set kws. CHR ''*'' \<in> set k \<longrightarrow> plain_keyword k"
    by (simp add: plain_keyword_def)
  have one: "match_filename re_search photo kws =
            Inr (\<exists>k\<in>set kws.
                   if CHR ''*'' \<in> set k then wildcard_spec (lower k) (lower (filename photo))
                   else (\<exists>pre post. lower (filename photo) = pre @ lower k @ post))"
    if "\<forall>k\<in>set kws. CHR ''*'' \<in> set k \<longrightarrow> CHR 0x0A \<notin> set (filename photo)"
    using that plain by (intro match_filename_spec) blast
  have two: "match_folder re_search photo kws =
            Inr (\<exists>k\<in>set kws.
                   if CHR ''*'' \<in> set k then wildcard_spec (lower k) (lower (folder_name photo))
                   else (\<exists>pre post. lower (folder_name photo) = pre @ lower k @ post))"
    if "\<forall>k\<in>set kws. CHR ''*'' \<in> set k \<longrightarrow> CHR 0x0A \<notin> set (folder_name photo)"
    using that plain by (intro match_folder_spec) blast
  from one two show ?thesis by blast
qed

text \<open>The keyword \<^verbatim>\<open>NCC*\<close> matches "NCC_parade_001.jpg" and not "my_NCC_photo.jpg".\<close>

theorem wildcard_semantics_witness:
  "match_filename re_search (photo_named ''NCC_parade_001.jpg'') [''NCC*''] = Inr True \<and>
   match_filename re_search (photo_named ''my_NCC_photo.jpg'') [''NCC*''] = Inr False"
proof -
  have h: "\<forall>k\<in>set [''NCC*'']. CHR ''*'' \<in> set k \<longrightarrow>
             (\<forall>c\<in>set k. c \<noteq> CHR ''*'' \<longrightarrow> \<not> re_special c)"
    by (simp add: re_special_def)
  have k: "\<forall>k\<in>set [''NCC*'']. ascii k"
    by code_simp
  have a1: "ascii (filename (photo_named ''NCC_parade_001.jpg''))"
    and f1: "ascii (folder_name (photo_named ''NCC_parade_001.jpg''))"
    and a2: "ascii (filename (photo_named ''my_NCC_photo.jpg''))"
    and f2: "ascii (folder_name (photo_named ''my_NCC_photo.jpg''))"
    by code_simp+
  have n1: "\<forall>k\<in>set [''NCC*'']. CHR ''*'' \<in> set k \<longrightarrow>
              CHR 0x0A \<notin> set (filename (photo_named ''NCC_parade_001.jpg''))"
    by (simp add: photo_named_def)
  have n2: "\<forall>k\<in>set [''NCC*'']. CHR ''*'' \<in> set k \<longrightarrow>
              CHR 0x0A \<notin> set (filename (photo_named ''my_NCC_photo.jpg''))"
    by (simp add: photo_named_def)
  have w1: "wildcard_spec (lower ''NCC*'') (lower (filename (photo_named ''NCC_parade_001.jpg'')))"
    by code_simp
  have w2: "\<not> wildcard_spec (lower ''NCC*'') (lower (filename (photo_named ''my_NCC_photo.jpg'')))"
    by code_simp
  from wildcard_semantics [OF a1 f1 k h] n1 w1
  have "match_filename re_search (photo_named ''NCC_parade_001.jpg'') [''NCC*''] = Inr True"
    by simp
  moreover from wildcard_semantics [OF a2 f2 k h] n2 w2
  have "match_filename re_search (photo_named ''my_NCC_photo.jpg'') [''NCC*''] = Inr False"
    by simp
  ultimately show ?thesis by blast
qed

text \<open>The claim as stated fails in two ways. A character of the keyword that \<^verbatim>\<open>re\<close>
  reads as syntax is not compared literally: the dot of \<^verbatim>\<open>a.b*\<close> matches any
  character, so "axb.jpg" matches although it does not start with "a.b". And \<^verbatim>\<open>*\<close>
  becomes \<^verbatim>\<open>.*\<close>, which does not run over a line feed: \<^verbatim>\<open>a*b\<close> does not match a
  file name made of "a", a line feed and "b.jpg", although the name starts with "a",
  followed by characters and then "b".\<close>

theorem wildcard_semantics_counterexample:
  "match_filename re_search (photo_named ''axb.jpg'') [''a.b*''] = Inr True \<and>
   \<not> wildcard_spec (lower ''a.b*'') (lower ''axb.jpg'') \<and>
   match_filename re_search (photo_named (CHR ''a'' # CHR 0x0A # ''b.jpg'')) [''a*b''] = Inr False \<and>
   wildcard_spec (lower ''a*b'') (lower (CHR ''a'' # CHR 0x0A # ''b.jpg''))"
  by code_simp

text \<open>
  C8, missing dates, as amended. For a photo with neither a capture date nor a file
  creation date, \<^verbatim>\<open>match_date\<close> is false for every filter, and \<^verbatim>\<open>_matches_spec\<close> is
  the outcome of the keyword match. Matching such a photo raises nothing when the search
  raises for none of the wildcard keywords: then \<^verbatim>\<open>_matches_spec\<close> returns a truth value
  and \<^verbatim>\<open>match\<close> returns a result for every list of photos that holds it.
\<close>

theorem missing_date_no_match:
  "exif_date photo = None \<Longrightarrow> file_created photo = None \<Longrightarrow>
     preferred_date photo = None \<and> match_date photo df = False \<and>
     matches_spec rx photo spec = keyword_match rx photo spec \<and>
     ((\<forall>k\<in>set (keywords_list spec). CHR ''*'' \<in> set k \<longrightarrow>
          (\<forall>t. \<exists>b. rx (CHR ''^'' # replace_star k) t = Inr b)) \<longrightarrow>
        (\<exists>b. matches_spec rx photo spec = Inr b)) \<and>
     ((\<forall>s\<in>set specs. \<forall>k\<in>set (keywords_list s). CHR ''*'' \<in> set k \<longrightarrow>
          (\<forall>t. \<exists>b. rx (CHR ''^'' # replace_star k) t = Inr b)) \<and> photo \<in> set photos \<longrightarrow>
        (\<exists>r. match rx specs photos = Inr r \<and>
           (photo \<in> set (unmatched r) \<or> (\<exists>k ps. (k, ps) \<in> set (matched r) \<and> photo \<in> set ps))))"
proof (intro conjI impI)
  assume e: "exif_date photo = None" and f: "file_created photo = None"
  from e f show "preferred_date photo = None" by (simp add: preferred_date_def)
  from e f show "match_date photo df = False" by (simp add: preferred_date_def match_date_def)
  show "matches_spec rx photo spec = keyword_match rx photo spec"
    by (rule matches_spec_keyword_match)
next
  assume "\<forall>k\<in>set (keywords_list spec). CHR ''*'' \<in> set k \<longrightarrow>
          (\<forall>t. \<exists>b. rx (CHR ''^'' # replace_star k) t = Inr b)"
  then show "\<exists>b. matches_spec rx photo spec = Inr b" by (rule matches_spec_defined)
next
  assume h: "(\<forall>s\<in>set specs. \<forall>k\<in>set (keywords_list s). CHR ''*'' \<in> set k \<longrightarrow>
          (\<forall>t. \<exists>b. rx (CHR ''^'' # replace_star k) t = Inr b)) \<and> photo \<in> set photos"
  then obtain r where r: "match rx specs photos = Inr r" using match_returns by blast
  from match_result(6) [OF r] have
    "set (bucket_photos (matched r)) \<union> set (unmatched r) = set photos"
    by (metis set_mset_mset set_mset_union)
  with h have "photo \<in> set (bucket_photos (matched r)) \<or> photo \<in> set (unmatched r)" by blast
  then have "photo \<in> set (unmatched r) \<or> (\<exists>k ps. (k, ps) \<in> set (matched r) \<and> photo \<in> set ps)"
    by (auto simp: bucket_photos_def)
  with r show "\<exists>r. match rx specs photos = Inr r \<and>
           (photo \<in> set (unmatched r) \<or> (\<exists>k ps. (k, ps) \<in> set (matched r) \<and> photo \<in> set ps))"
    by blast
qed

text \<open>A photo without dates against the spec "vacation" with the filter year 2024.\<close>

theorem missing_date_no_match_witness:
  "exif_date (photo_named ''vacation.jpg'') = None \<and>
   file_created (photo_named ''vacation.jpg'') = None \<and>
   match_date (photo_named ''vacation.jpg'')
     \<lparr>year = Some 2024, month = None, start_date = None, end_date = None\<rparr> = False \<and>
   (\<exists>b. matches_spec re_search (photo_named ''vacation.jpg'') vacation_2024 = Inr b) \<and>
   (\<exists>r. match re_search [vacation_2024] [photo_named ''vacation.jpg''] = Inr r \<and>
      (photo_named ''vacation.jpg'' \<in> set (unmatched r) \<or>
       (\<exists>k ps. (k, ps) \<in> set (matched r) \<and> photo_named ''vacation.jpg'' \<in> set ps)))"
proof -
  have e: "exif_date (photo_named ''vacation.jpg'') = None"
    and f: "file_created (photo_named ''vacation.jpg'') = None"
    by (simp_all add: photo_named_def)
  have k: "\<forall>k\<in>set (keywords_list vacation_2024). CHR ''*'' \<in> set k \<longrightarrow>
          (\<forall>t. \<exists>b. re_search (CHR ''^'' # replace_star k) t = Inr b)"
    by (simp add: vacation_2024_def album_def)
  then have ks: "\<forall>s\<in>set [vacation_2024]. \<forall>k\<in>set (keywords_list s). CHR ''*'' \<in> set k \<longrightarrow>
          (\<forall>t. \<exists>b. re_search (CHR ''^'' # replace_star k) t = Inr b)"
    by simp
  have p: "photo_named ''vacation.jpg'' \<in> set [photo_named ''vacation.jpg'']" by simp
  from missing_date_no_match [OF e f, of _ re_search vacation_2024 "[vacation_2024]"
      "[photo_named ''vacation.jpg'']"] e f k ks p
  show ?thesis by blast
qed

text \<open>The claim as stated fails: a photo without dates against a spec with a date
  filter and the keyword \<^verbatim>\<open>?*\<close>. The pattern \<^verbatim>\<open>^?.*\<close> does not compile, and the
  matcher raises.\<close>

theorem missing_date_no_match_counterexample:
  "exif_date (photo_named ''beach.jpg'') = None \<and>
   file_created (photo_named ''beach.jpg'') = None \<and>
   match re_search
     [\<lparr>name = ''Any'', keywords_list = [''?*''],
       date_filter = Some \<lparr>year = Some 2024, month = None, start_date = None, end_date = None\<rparr>,
       original_prompt = []\<rparr>]
     [photo_named ''beach.jpg''] = Inl ReError"
  by code_simp

text \<open>
  C10, the empty album name. In every result of \<^verbatim>\<open>match\<close>, a photo whose first matching
  spec has the empty name is in the unmatched list and in no bucket.
\<close>

theorem empty_name_unmatched:
  assumes "match rx specs photos = Inr r" and "p \<in> set photos"
    and "i < length specs" and "matches_spec rx p (specs ! i) = Inr True"
    and "\<forall>j<i. matches_spec rx p (specs ! j) = Inr False"
    and "name (specs ! i) = []"
  shows "p \<in> set (unmatched r) \<and> (\<forall>(k, ps)\<in>set (matched r). p \<notin> set ps)"
proof -
  from assms(3-5) have "find_album rx specs p = Inr (Some (name (specs ! i)))"
    by (rule find_album_first)
  with assms(6) have "left_over rx specs p" by (simp add: left_over_def)
  from match_places(2) [OF assms(1,2) this] show ?thesis .
qed

theorem empty_name_unmatched_witness:
  "\<exists>r. match re_search [album ''Trips'' [''trip''], album [] [''img'']]
          [photo_named ''IMG_0042.jpg''] = Inr r \<and>
       photo_named ''IMG_0042.jpg'' \<in> set (unmatched r) \<and>
       (\<forall>(k, ps)\<in>set (matched r). photo_named ''IMG_0042.jpg'' \<notin> set ps)"
proof -
  let ?specs = "[album ''Trips'' [''trip''], album [] [''img'']]"
  let ?p = "photo_named ''IMG_0042.jpg''"
  have "\<forall>s\<in>set ?specs. \<forall>k\<in>set (keywords_list s). CHR ''*'' \<in> set k \<longrightarrow>
        (\<forall>t. \<exists>b. re_search (CHR ''^'' # replace_star k) t = Inr b)"
    by (simp add: album_def)
  then obtain r where r: "match re_search ?specs [?p] = Inr r"
    using match_returns by blast
  have p: "?p \<in> set [?p]" by simp
  have i: "1 < length ?specs" by simp
  have m: "matches_spec re_search ?p (?specs ! 1) = Inr True"
    by code_simp
  have "matches_spec re_search ?p (?specs ! 0) = Inr False"
    by code_simp
  then have m0: "\<forall>j<1. matches_spec re_search ?p (?specs ! j) = Inr False"
    by simp
  have n: "name (?specs ! 1) = []" by (simp add: album_def)
  from empty_name_unmatched [OF r p i m m0 n] r show ?thesis by blast
qed

section \<open>Properties of the prompt parser\<close>



text \<open>
  C6, uniform first-date attachment. Whenever \<^verbatim>\<open>extract_dates\<close> returns, \<^verbatim>\<open>parse\<close>
  returns one spec for each extracted album name, and every spec carries the first date
  filter returned by \<^verbatim>\<open>extract_dates\<close>, or none when \<^verbatim>\<open>extract_dates\<close> returns
  nothing; an exception of \<^verbatim>\<open>extract_dates\<close> is the exception of \<^verbatim>\<open>parse\<close>. The
  prompt "Sort by NCC events, college fests in March 2024" yields exactly two specs, both
  with the filter year 2024 and month 3; a prompt without date yields specs without
  filter.
\<close>

theorem first_date_everywhere:
  "(extract_dates prompt = Inr dates \<longrightarrow>
      (\<exists>specs. parse prompt = Inr specs \<and>
         map name specs = extract_album_names prompt \<and>
         (\<forall>s\<in>set specs. date_filter s = (case dates of [] \<Rightarrow> None | d # _ \<Rightarrow> Some d)))) \<and>
   (extract_dates prompt = Inl e \<longrightarrow> parse prompt = Inl e) \<and>
   parse ''Sort by NCC events, college fests in March 2024'' =
     Inr [\<lparr>name = ''Ncc Events'', keywords_list = [''ncc events'', ''ncc'', ''events''],
           date_filter = Some (DateFilter_of (Some 2024) (Some 3)),
           original_prompt = ''Sort by NCC events, college fests in March 2024''\<rparr>,
          \<lparr>name = ''College Fests In'',
           keywords_list = [''college fests in'', ''college'', ''fests''],
           date_filter = Some (DateFilter_of (Some 2024) (Some 3)),
           original_prompt = ''Sort by NCC events, college fests in March 2024''\<rparr>] \<and>
   parse ''Create albums for vacation and work'' =
     Inr [\<lparr>name = ''Vacation'', keywords_list = [''vacation''], date_filter = None,
           original_prompt = ''Create albums for vacation and work''\<rparr>,
          \<lparr>name = ''Work'', keywords_list = [''work''], date_filter = None,
           original_prompt = ''Create albums for vacation and work''\<rparr>]"
proof (intro conjI impI)
  assume d: "extract_dates prompt = Inr dates"
  from parse_eq [OF d]
  show "\<exists>specs. parse prompt = Inr specs \<and>
         map name specs = extract_album_names prompt \<and>
         (\<forall>s\<in>set specs. date_filter s = (case dates of [] \<Rightarrow> None | d # _ \<Rightarrow> Some d))"
    by (auto simp: comp_def)
next
  assume "extract_dates prompt = Inl e"
  then show "parse prompt = Inl e" by (rule parse_raises)
next
  show "parse ''Sort by NCC events, college fests in March 2024'' =
     Inr [\<lparr>name = ''Ncc Events'', keywords_list = [''ncc events'', ''ncc'', ''events''],
           date_filter = Some (DateFilter_of (Some 2024) (Some 3)),
           original_prompt = ''Sort by NCC events, college fests in March 2024''\<rparr>,
          \<lparr>name = ''College Fests In'',
           keywords_list = [''college fests in'', ''college'', ''fests''],
           date_filter = Some (DateFilter_of (Some 2024) (Some 3)),
           original_prompt = ''Sort by NCC events, college fests in March 2024''\<rparr>]"
    by code_simp
  show "parse ''Create albums for vacation and work'' =
     Inr [\<lparr>name = ''Vacation'', keywords_list = [''vacation''], date_filter = None,
           original_prompt = ''Create albums for vacation and work''\<rparr>,
          \<lparr>name = ''Work'', keywords_list = [''work''], date_filter = None,
           original_prompt = ''Create albums for vacation and work''\<rparr>]"
    by code_simp
qed

text \<open>An instance with a bare year.\<close>

theorem first_date_everywhere_witness:
  "extract_dates ''Create albums for vacation and work in 2023'' =
     Inr [DateFilter_of (Some 2023) None] \<and>
   (\<exists>specs. parse ''Create albums for vacation and work in 2023'' = Inr specs \<and>
      map name specs = [''Vacation'', ''Work In''] \<and>
      (\<forall>s\<in>set specs. date_filter s = Some (DateFilter_of (Some 2023) None)))"
proof -
  have d: "extract_dates ''Create albums for vacation and work in 2023'' =
             Inr [DateFilter_of (Some 2023) None]"
    by code_simp
  have n: "extract_album_names ''Create albums for vacation and work in 2023'' =
             [''Vacation'', ''Work In'']"
    by code_simp
  from first_date_everywhere [of "''Create albums for vacation and work in 2023''"
      "[DateFilter_of (Some 2023) None]"] d n
  show ?thesis by auto
qed

text \<open>
  C9, non-vacuous date filters. Every filter that \<^verbatim>\<open>extract_dates\<close> returns has its
  year set, and so has every filter that \<^verbatim>\<open>parse\<close> attaches to a spec: the filter without
  any field is never attached by the parser.
\<close>

theorem attached_filter_has_year:
  "(extract_dates prompt = Inr dates \<longrightarrow> (\<forall>d\<in>set dates. year d \<noteq> None)) \<and>
   (parse prompt = Inr specs \<longrightarrow>
      (\<forall>s\<in>set specs. \<forall>df. date_filter s = Some df \<longrightarrow>
         year df \<noteq> None \<and>
         df \<noteq> \<lparr>year = None, month = None, start_date = None, end_date = None\<rparr>))"
proof (intro conjI impI)
  assume "extract_dates prompt = Inr dates"
  from extract_dates_year [OF this] show "\<forall>d\<in>set dates. year d \<noteq> None"
    by (simp add: all_have_year_def)
next
  assume p: "parse prompt = Inr specs"
  from parse_InrD [OF p] obtain ds where ds: "extract_dates prompt = Inr ds" by blast
  from extract_dates_year [OF ds] have y: "\<forall>d\<in>set ds. year d \<noteq> None"
    by (simp add: all_have_year_def)
  then have "\<forall>df. (case ds of [] \<Rightarrow> None | d # _ \<Rightarrow> Some d) = Some df \<longrightarrow> year df \<noteq> None"
    by (cases ds) auto
  with parse_eq [OF ds] p
  have "\<forall>s\<in>set specs. \<forall>df. date_filter s = Some df \<longrightarrow> year df \<noteq> None"
    by auto
  then show "\<forall>s\<in>set specs. \<forall>df. date_filter s = Some df \<longrightarrow>
         year df \<noteq> None \<and>
         df \<noteq> \<lparr>year = None, month = None, start_date = None, end_date = None\<rparr>"
    by auto
qed

text \<open>An instance: both specs of the prompt carry the filter of March 2024.\<close>

theorem attached_filter_has_year_witness:
  "\<exists>specs. parse ''Photos from March 2024 and also 2023'' = Inr specs \<and>
     map name specs = [''Photos From'', ''Also''] \<and>
     (\<forall>s\<in>set specs. \<exists>df. date_filter s = Some df \<and> year df \<noteq> None)"
proof -
  have d: "extract_dates ''Photos from March 2024 and also 2023'' =
             Inr [DateFilter_of (Some 2024) (Some 3)]"
    by code_simp
  have n: "extract_album_names ''Photos from March 2024 and also 2023'' =
             [''Photos From'', ''Also'']"
    by code_simp
  from parse_eq [OF d] n obtain specs where
    p: "parse ''Photos from March 2024 and also 2023'' = Inr specs" and
    names: "map name specs = [''Photos From'', ''Also'']" and
    df: "\<forall>s\<in>set specs. date_filter s = Some (DateFilter_of (Some 2024) (Some 3))"
    by (auto simp: comp_def)
  from attached_filter_has_year [of "''Photos from March 2024 and also 2023''" _ specs] p
  have "\<forall>s\<in>set specs. \<forall>df. date_filter s = Some df \<longrightarrow> year df \<noteq> None"
    by blast
  with p names df show ?thesis by auto
qed

text \<open>
  C7, prompts without album names. The prompt "2024-03" consists of one date token, which
  \<^verbatim>\<open>extract_dates\<close> reads as March 2024; \<^verbatim>\<open>extract_album_names\<close> removes the year
  before it looks for the token, and \<^verbatim>\<open>parse\<close> returns a spec named "-03" instead of
  the empty list.
\<close>

theorem date_token_prompt_named:
  "parse ''2024-03'' =
     Inr [\<lparr>name = ''-03'', keywords_list = [''-03''],
           date_filter = Some (DateFilter_of (Some 2024) (Some 3)),
           original_prompt = ''2024-03''\<rparr>]"
  by code_simp

end
